theory Spec2Isabelle
  imports Complex_Main "HOL-Library.Multiset"
begin

section \<open>JavaScript strings and arrays\<close>

text \<open>
  A JavaScript string is modelled as a \<open>string\<close>: a list of characters whose codes are
  read as the code points U+0000 to U+00FF. On that range the regular expression class
  \<^verbatim>\<open>\s\<close> and the characters removed by \<^verbatim>\<open>trim()\<close> are the same seven code points:
  TAB, LF, VT, FF, CR, SPACE and NO-BREAK SPACE.
\<close>

definition LF :: char where
  "LF = CHR 0x0A"

definition CR :: char where
  "CR = CHR 0x0D"

definition SP :: char where
  "SP = CHR 0x20"

definition BS :: char where
  "BS = CHR 0x5C"

definition isSpace :: "char \<Rightarrow> bool" where
  "isSpace c = ((of_char c :: nat) \<in> {9, 10, 11, 12, 13, 32, 160})"

text \<open>\<^verbatim>\<open>s.trim()\<close>\<close>

definition trim :: "string \<Rightarrow> string" where
  "trim s = rev (dropWhile isSpace (rev (dropWhile isSpace s)))"

text \<open>\<^verbatim>\<open>s.replace(/\r\n/g, "\n")\<close>\<close>

fun replace_crlf :: "string \<Rightarrow> string" where
  "replace_crlf (c # d # cs) =
     (if c = CR \<and> d = LF then LF # replace_crlf cs else c # replace_crlf (d # cs))"
| "replace_crlf cs = cs"

text \<open>\<^verbatim>\<open>s.replace(/\s+/g, " ")\<close>: every maximal run of white space becomes one space.\<close>

function replace_ws :: "string \<Rightarrow> string" where
  "replace_ws [] = []"
| "replace_ws (c # cs) =
     (if isSpace c then SP # replace_ws (dropWhile isSpace cs) else c # replace_ws cs)"
  by pat_completeness auto
termination
  by (relation "measure length") (auto simp: length_dropWhile_le less_Suc_eq_le)

text \<open>\<^verbatim>\<open>s.replace(/ \n/g, "\n")\<close>\<close>

fun replace_sp_nl :: "string \<Rightarrow> string" where
  "replace_sp_nl (c # d # cs) =
     (if c = SP \<and> d = LF then LF # replace_sp_nl cs else c # replace_sp_nl (d # cs))"
| "replace_sp_nl cs = cs"

text \<open>
  \<^verbatim>\<open>s.split(/\s+/)\<close> and \<^verbatim>\<open>s.split(/\n+/)\<close>: the pieces between the maximal runs of
  separator characters. A run at the start or at the end of the string leaves an empty
  piece there, and the empty string splits into one empty piece.
\<close>

function splitRuns :: "(char \<Rightarrow> bool) \<Rightarrow> string \<Rightarrow> string list" where
  "splitRuns sep [] = [[]]"
| "splitRuns sep (c # cs) =
     (if sep c then [] # splitRuns sep (dropWhile sep cs)
      else (case splitRuns sep cs of
              [] \<Rightarrow> [[c]]
            | w # ws \<Rightarrow> (c # w) # ws))"
  by pat_completeness auto
termination
  by (relation "measure (\<lambda>(sep, cs). length cs)")
     (auto simp: length_dropWhile_le less_Suc_eq_le)

definition split_ws :: "string \<Rightarrow> string list" where
  "split_ws s = splitRuns isSpace s"

definition split_nl :: "string \<Rightarrow> string list" where
  "split_nl s = splitRuns (\<lambda>c. c = LF) s"

text \<open>\<^verbatim>\<open>xs.join(sep)\<close> on an array of strings\<close>

fun join :: "string \<Rightarrow> string list \<Rightarrow> string" where
  "join sep [] = []"
| "join sep [x] = x"
| "join sep (x # y # ys) = x @ sep @ join sep (y # ys)"

text \<open>
  \<^verbatim>\<open>xs.slice(start, stop)\<close> and \<^verbatim>\<open>xs.slice(start)\<close> on integers: a negative index counts
  from the end of the array, and both ends are clamped to the array.
\<close>

definition jsSlice :: "'a list \<Rightarrow> int \<Rightarrow> int \<Rightarrow> 'a list" where
  "jsSlice xs start stop =
     (let len = int (length xs);
          k = (if start < 0 then max (len + start) 0 else min start len);
          final = (if stop < 0 then max (len + stop) 0 else min stop len)
      in take (nat (final - k)) (drop (nat k) xs))"

definition jsSliceFrom :: "'a list \<Rightarrow> int \<Rightarrow> 'a list" where
  "jsSliceFrom xs start = jsSlice xs start (int (length xs))"

section \<open>The chunker\<close>

record chunk =
  content :: string
  chunkIndex :: int
  pageNumber :: int

text \<open>
  The variables that the closure \<^verbatim>\<open>pushChunk\<close> and the paragraph loop of
  \<^verbatim>\<open>chunkText\<close> share. The counter \<^verbatim>\<open>chunkIndex\<close> of the source is the field
  \<open>nextIndex\<close>, since the chunk record has a field of that name.
\<close>

record chunker =
  chunks :: "chunk list"
  currentChunk :: "string list"
  currentWordCount :: int
  nextIndex :: int

definition pushChunk :: "string \<Rightarrow> chunker \<Rightarrow> chunker" where
  "pushChunk c st =
     (let finalContent = trim c in
      if finalContent = [] then st
      else st\<lparr>chunks := chunks st @
                  [\<lparr>content = finalContent, chunkIndex = nextIndex st, pageNumber = 0\<rparr>],
              nextIndex := nextIndex st + 1\<rparr>)"

text \<open>
  The window loop over an oversized paragraph:
  \<^verbatim>\<open>for (let i = 0; i < words.length; i += chunkSize - overlap) { pushChunk(...); if (i + chunkSize >= words.length) break; }\<close>
  The source does not bound the number of iterations, so a run that never leaves the
  loop is the value \<open>None\<close>.
\<close>

partial_function (option) windowLoop ::
  "string list \<Rightarrow> int \<Rightarrow> int \<Rightarrow> int \<Rightarrow> chunker \<Rightarrow> chunker option" where
  "windowLoop words chunkSize overlap i st =
     (if i < int (length words) then
        (let st' = pushChunk (join [SP] (jsSlice words i (i + chunkSize))) st in
         if i + chunkSize \<ge> int (length words) then Some st'
         else windowLoop words chunkSize overlap (i + (chunkSize - overlap)) st')
      else Some st)"

declare windowLoop.simps [code]

definition flushCurrent :: "chunker \<Rightarrow> chunker" where
  "flushCurrent st = pushChunk (join [LF, LF] (currentChunk st)) st"

text \<open>The body of \<^verbatim>\<open>for (const paragraph of paragraphs)\<close>.\<close>

definition paragraphStep :: "int \<Rightarrow> int \<Rightarrow> string \<Rightarrow> chunker \<Rightarrow> chunker option" where
  "paragraphStep chunkSize overlap paragraph st =
     (let words = split_ws (trim paragraph) in
      if int (length words) > chunkSize then
        windowLoop words chunkSize overlap 0
          (if currentChunk st \<noteq> []
           then (flushCurrent st)\<lparr>currentChunk := [], currentWordCount := 0\<rparr>
           else st)
      else if currentWordCount st + int (length words) > chunkSize \<and> currentChunk st \<noteq> [] then
        (let st' = flushCurrent st;
             prevWords = split_ws (join [SP] (currentChunk st));
             overlapText = join [SP]
               (jsSliceFrom prevWords (- (min overlap (int (length prevWords)))))
         in Some (st'\<lparr>currentChunk :=
                         (if overlapText \<noteq> [] then [overlapText, paragraph] else [paragraph]),
                       currentWordCount :=
                         int (length (split_ws overlapText)) + int (length words)\<rparr>))
      else
        Some (st\<lparr>currentChunk := currentChunk st @ [paragraph],
                 currentWordCount := currentWordCount st + int (length words)\<rparr>))"

fun paragraphLoop :: "int \<Rightarrow> int \<Rightarrow> string list \<Rightarrow> chunker \<Rightarrow> chunker option" where
  "paragraphLoop chunkSize overlap [] st = Some st"
| "paragraphLoop chunkSize overlap (p # ps) st =
     (case paragraphStep chunkSize overlap p st of
        None \<Rightarrow> None
      | Some st' \<Rightarrow> paragraphLoop chunkSize overlap ps st')"

definition cleanText :: "string \<Rightarrow> string" where
  "cleanText t = trim (replace_sp_nl (replace_ws (replace_crlf t)))"

definition paragraphsOf :: "string \<Rightarrow> string list" where
  "paragraphsOf t = filter (\<lambda>p. trim p \<noteq> []) (split_nl (cleanText t))"

definition initChunker :: chunker where
  "initChunker = \<lparr>chunks = [], currentChunk = [], currentWordCount = 0, nextIndex = 0\<rparr>"

definition chunkText :: "string \<Rightarrow> int \<Rightarrow> int \<Rightarrow> chunk list option" where
  "chunkText t chunkSize overlap =
     (if t = [] \<or> trim t = [] then Some []
      else
        (case paragraphLoop chunkSize overlap (paragraphsOf t) initChunker of
           None \<Rightarrow> None
         | Some st \<Rightarrow>
             Some (chunks (if currentChunk st \<noteq> [] then flushCurrent st else st))))"

section \<open>The ranker\<close>

text \<open>\<^verbatim>\<open>s.toLowerCase()\<close> on the code points U+0000 to U+00FF\<close>

definition toLowerChar :: "char \<Rightarrow> char" where
  "toLowerChar c =
     (let n = (of_char c :: nat) in
      if (65 \<le> n \<and> n \<le> 90) \<or> (192 \<le> n \<and> n \<le> 222 \<and> n \<noteq> 215)
      then char_of (n + 32) else c)"

definition toLowerCase :: "string \<Rightarrow> string" where
  "toLowerCase s = map toLowerChar s"

text \<open>\<^verbatim>\<open>s.includes(w)\<close>\<close>

fun startsWith :: "string \<Rightarrow> string \<Rightarrow> bool" where
  "startsWith s [] = True"
| "startsWith [] (d # w) = False"
| "startsWith (c # s) (d # w) = (c = d \<and> startsWith s w)"

fun includesStr :: "string \<Rightarrow> string \<Rightarrow> bool" where
  "includesStr [] w = (w = [])"
| "includesStr (c # s) w = (startsWith (c # s) w \<or> includesStr s w)"

subsection \<open>The regular expression engine\<close>

datatype js_error = SyntaxError

text \<open>
  The ranker builds two regular expressions from every query token and counts their
  matches: \<^verbatim>\<open>(content.match(new RegExp(pattern, "g")) || []).length\<close>. The engine belongs
  to the JavaScript runtime, so the ranker takes it as a parameter: from the source of
  a pattern and a subject string it gives either the \<open>SyntaxError\<close> that the
  constructor throws, or the number of matches.
\<close>

type_synonym regexp_engine = "string \<Rightarrow> string \<Rightarrow> js_error + nat"

text \<open>
  A fragment of the ECMAScript pattern language is modelled here: patterns made of
  plain characters, the assertion \<^verbatim>\<open>\b\<close>, and the quantifier characters \<open>*\<close>, \<open>+\<close>
  and \<open>?\<close>. A quantifier with nothing to repeat (at the start of the pattern, after an
  assertion, or after a complete quantifier) is a \<open>SyntaxError\<close>. A pattern built of
  plain characters and \<^verbatim>\<open>\b\<close> alone is matched as written. Every other pattern is
  left to the rest of the engine.
\<close>

datatype item = Boundary | Literal char

datatype parsed = Items "item list" | Invalid | Other

definition isSyntaxChar :: "char \<Rightarrow> bool" where
  "isSyntaxChar c = (c = BS \<or> c \<in> set ''^$.*+?()[]{}|'')"

definition isQuantifierChar :: "char \<Rightarrow> bool" where
  "isQuantifierChar c = (c \<in> set ''*+?'')"

text \<open>
  The state of the scan is what a quantifier character would follow: nothing that can
  be repeated, an atom, or a quantifier that a \<open>?\<close> may still make lazy.
\<close>

datatype scan = NoAtom | Atom | Quantified

fun parsePattern :: "string \<Rightarrow> scan \<Rightarrow> bool \<Rightarrow> item list \<Rightarrow> parsed" where
  "parsePattern [] sc quantified acc = (if quantified then Other else Items (rev acc))"
| "parsePattern (c # cs) sc quantified acc =
     (if isQuantifierChar c then
        (case sc of
           NoAtom \<Rightarrow> Invalid
         | Atom \<Rightarrow> parsePattern cs Quantified True acc
         | Quantified \<Rightarrow>
             if c = CHR ''?'' then parsePattern cs NoAtom True acc else Invalid)
      else if c = BS then
        (case cs of
           [] \<Rightarrow> Other
         | d # ds \<Rightarrow>
             if d = CHR ''b'' then parsePattern ds NoAtom quantified (Boundary # acc)
             else Other)
      else if isSyntaxChar c then Other
      else parsePattern cs Atom quantified (Literal c # acc))"

text \<open>\<^verbatim>\<open>\w\<close>, and the word boundary between two neighbours of which either may be absent\<close>

definition isWordChar :: "char \<Rightarrow> bool" where
  "isWordChar c =
     (let n = (of_char c :: nat) in
      (48 \<le> n \<and> n \<le> 57) \<or> (65 \<le> n \<and> n \<le> 90) \<or> n = 95 \<or> (97 \<le> n \<and> n \<le> 122))"

definition isWord :: "char option \<Rightarrow> bool" where
  "isWord c = (case c of None \<Rightarrow> False | Some d \<Rightarrow> isWordChar d)"

definition nextChar :: "string \<Rightarrow> char option" where
  "nextChar s = (case s of [] \<Rightarrow> None | c # cs \<Rightarrow> Some c)"

text \<open>
  A match of the items at the current position: the number of characters it takes.
  \<open>prev\<close> is the character before the position.
\<close>

fun matchItems :: "item list \<Rightarrow> char option \<Rightarrow> string \<Rightarrow> nat option" where
  "matchItems [] prev s = Some 0"
| "matchItems (Boundary # its) prev s =
     (if isWord prev \<noteq> isWord (nextChar s) then matchItems its prev s else None)"
| "matchItems (Literal c # its) prev [] = None"
| "matchItems (Literal c # its) prev (d # s) =
     (if c = d then map_option Suc (matchItems its (Some d) s) else None)"

text \<open>
  The matches of a global expression: the leftmost match from the current position on,
  then on from its end; after an empty match, on from the next character.
\<close>

function countMatches :: "item list \<Rightarrow> char option \<Rightarrow> string \<Rightarrow> nat" where
  "countMatches its prev [] = (if matchItems its prev [] = None then 0 else 1)"
| "countMatches its prev (c # cs) =
     (case matchItems its prev (c # cs) of
        None \<Rightarrow> countMatches its (Some c) cs
      | Some 0 \<Rightarrow> 1 + countMatches its (Some c) cs
      | Some (Suc n) \<Rightarrow> 1 + countMatches its (Some ((c # cs) ! min n (length cs))) (drop n cs))"
  by pat_completeness auto
termination
  by (relation "measure (\<lambda>(its, prev, s). length s)") auto

definition ecmaRegExp :: "regexp_engine \<Rightarrow> regexp_engine" where
  "ecmaRegExp rest pattern subject =
     (case parsePattern pattern NoAtom False [] of
        Items its \<Rightarrow> Inr (countMatches its None subject)
      | Invalid \<Rightarrow> Inl SyntaxError
      | Other \<Rightarrow> rest pattern subject)"

text \<open>
  The engine that refuses every pattern outside the fragment, for evaluating the ranker
  on queries whose patterns all lie inside it.
\<close>

definition fragmentRegExp :: regexp_engine where
  "fragmentRegExp = ecmaRegExp (\<lambda>pattern subject. Inl SyntaxError)"

subsection \<open>Scoring\<close>

text \<open>
  A stored chunk is a chunk of the chunker together with the \<^verbatim>\<open>id\<close> that the ranker
  copies (\<open>None\<close> when the object has no such property). A scored chunk adds the
  annotations of the ranker. Numbers are modelled as integers and, for the scores,
  as real numbers: the rounding of floating point arithmetic is not modelled.
\<close>

record stored_chunk = chunk +
  chunk_id :: "string option"

record scored_chunk = stored_chunk +
  score :: real
  rawScore :: real
  matchedWords :: nat

datatype ranked = Unscored stored_chunk | Scored scored_chunk

definition stopWords :: "string list" where
  "stopWords =
     [''the'', ''is'', ''at'', ''which'', ''on'', ''an'', ''in'', ''with'', ''to'', ''for'',
      ''a'', ''and'', ''or'', ''of'', ''as'', ''by'', ''but'', ''this'', ''that'', ''it'']"

definition queryWordsOf :: "string \<Rightarrow> string list" where
  "queryWordsOf query =
     filter (\<lambda>w. length w > 2 \<and> w \<notin> set stopWords) (split_ws (toLowerCase query))"

text \<open>The pattern \<^verbatim>\<open>`\\b${word}\\b`\<close>\<close>

definition wholeWordPattern :: "string \<Rightarrow> string" where
  "wholeWordPattern word = [BS, CHR ''b''] @ word @ [BS, CHR ''b'']"

text \<open>
  \<^verbatim>\<open>for (const word of queryWords) { ... score += ...; score += ...; }\<close>: the first
  expression that cannot be built ends the loop with its error.
\<close>

fun scoreWords :: "regexp_engine \<Rightarrow> string \<Rightarrow> string list \<Rightarrow> real \<Rightarrow> js_error + real" where
  "scoreWords rx c [] sc = Inr sc"
| "scoreWords rx c (word # ws) sc =
     (case rx (wholeWordPattern word) c of
        Inl e \<Rightarrow> Inl e
      | Inr exactMatches \<Rightarrow>
          (case rx word c of
             Inl e \<Rightarrow> Inl e
           | Inr partialMatches \<Rightarrow>
               scoreWords rx c ws
                 (sc + real exactMatches * 3
                     + max 0 (real partialMatches - real exactMatches) * 1.5)))"

text \<open>The function that \<^verbatim>\<open>chunks.map((chunk, index) => ...)\<close> applies; \<open>len\<close> is \<^verbatim>\<open>chunks.length\<close>.\<close>

definition scoreChunk ::
  "regexp_engine \<Rightarrow> string list \<Rightarrow> nat \<Rightarrow> stored_chunk \<Rightarrow> nat \<Rightarrow> js_error + scored_chunk" where
  "scoreChunk rx queryWords len chunk index =
     (let c = toLowerCase (content chunk);
          contentWords = length (split_ws c)
      in case scoreWords rx c queryWords 0 of
           Inl e \<Rightarrow> Inl e
         | Inr sc \<Rightarrow>
             (let uniqueWordsFound = length (filter (includesStr c) queryWords);
                  sc' = (if uniqueWordsFound > 1 then sc + real uniqueWordsFound * 2 else sc);
                  normalizedScore = sc' / sqrt (real contentWords);
                  positionBonus = 1 - (real index / real len) * 0.1
              in Inr \<lparr>content = content chunk, chunkIndex = chunkIndex chunk,
                      pageNumber = pageNumber chunk, chunk_id = chunk_id chunk,
                      score = normalizedScore * positionBonus, rawScore = sc',
                      matchedWords = uniqueWordsFound\<rparr>))"

fun mapScore ::
  "regexp_engine \<Rightarrow> string list \<Rightarrow> nat \<Rightarrow> stored_chunk list \<Rightarrow> nat \<Rightarrow> js_error + scored_chunk list" where
  "mapScore rx queryWords len [] index = Inr []"
| "mapScore rx queryWords len (chunk # rest) index =
     (case scoreChunk rx queryWords len chunk index of
        Inl e \<Rightarrow> Inl e
      | Inr sc \<Rightarrow>
          (case mapScore rx queryWords len rest (Suc index) of
             Inl e \<Rightarrow> Inl e
           | Inr scs \<Rightarrow> Inr (sc # scs)))"

subsection \<open>Ordering\<close>

text \<open>The comparator of the sort: negative when \<open>a\<close> goes before \<open>b\<close>.\<close>

definition compareScored :: "scored_chunk \<Rightarrow> scored_chunk \<Rightarrow> real" where
  "compareScored a b =
     (if score b \<noteq> score a then score b - score a
      else if matchedWords b \<noteq> matchedWords a
           then real_of_int (int (matchedWords b) - int (matchedWords a))
      else real_of_int (chunkIndex a - chunkIndex b))"

text \<open>
  \<^verbatim>\<open>xs.sort(cmp)\<close> is a stable sort: elements that compare equal keep their order.
  It is modelled by insertion from the right.
\<close>

fun insertBy :: "('a \<Rightarrow> 'a \<Rightarrow> real) \<Rightarrow> 'a \<Rightarrow> 'a list \<Rightarrow> 'a list" where
  "insertBy cmp x [] = [x]"
| "insertBy cmp x (y # ys) = (if cmp x y \<le> 0 then x # y # ys else y # insertBy cmp x ys)"

definition sortBy :: "('a \<Rightarrow> 'a \<Rightarrow> real) \<Rightarrow> 'a list \<Rightarrow> 'a list" where
  "sortBy cmp xs = foldr (insertBy cmp) xs []"

subsection \<open>findRelevantChunks\<close>

text \<open>
  The parameter \<^verbatim>\<open>chunks\<close> of the source is \<open>inputChunks\<close> here, since the chunker's
  state has a field of that name.
\<close>

definition findRelevantChunks ::
  "regexp_engine \<Rightarrow> stored_chunk list \<Rightarrow> string \<Rightarrow> int \<Rightarrow> js_error + ranked list" where
  "findRelevantChunks rx inputChunks query maxChunks =
     (if inputChunks = [] \<or> query = [] then Inr []
      else
        (let queryWords = queryWordsOf query in
         if queryWords = [] then
           Inr (map (\<lambda>chunk. Unscored \<lparr>content = content chunk, chunkIndex = chunkIndex chunk,
                                        pageNumber = pageNumber chunk, chunk_id = chunk_id chunk\<rparr>)
                  (jsSlice inputChunks 0 maxChunks))
         else
           (case mapScore rx queryWords (length inputChunks) inputChunks 0 of
              Inl e \<Rightarrow> Inl e
            | Inr scoredChunks \<Rightarrow>
                Inr (map Scored
                       (jsSlice (sortBy compareScored (filter (\<lambda>c. score c > 0) scoredChunks))
                          0 maxChunks)))))"

section \<open>Notions used in the statements\<close>

text \<open>A list of words: no word is empty and none holds white space.\<close>

definition wordList :: "string list \<Rightarrow> bool" where
  "wordList ws = (\<forall>w\<in>set ws. w \<noteq> [] \<and> (\<forall>c\<in>set w. \<not> isSpace c))"

text \<open>
  The window number \<open>k\<close> over a list of words: \<open>chunkSize\<close> words from position
  \<open>k * (chunkSize - overlap)\<close> on, or as many as are left.
\<close>

definition windowAt :: "string list \<Rightarrow> int \<Rightarrow> int \<Rightarrow> nat \<Rightarrow> string list" where
  "windowAt words chunkSize overlap k =
     take (nat chunkSize) (drop (k * nat (chunkSize - overlap)) words)"

text \<open>The indexes of a chunk list are \<open>0, 1, ..., n - 1\<close> in this order.\<close>

definition denseIndexes :: "chunk list \<Rightarrow> bool" where
  "denseIndexes cs = (map chunkIndex cs = map int [0..<length cs])"

definition denseState :: "chunker \<Rightarrow> bool" where
  "denseState st = (nextIndex st = int (length (chunks st)) \<and> denseIndexes (chunks st))"

text \<open>
  The chunks of the first \<open>m\<close> windows from window \<open>k0\<close> on, numbered from \<open>idx\<close>: the
  content of each is its window's words joined by single spaces.
\<close>

definition windowChunks :: "string list \<Rightarrow> int \<Rightarrow> int \<Rightarrow> nat \<Rightarrow> int \<Rightarrow> nat \<Rightarrow> chunk list" where
  "windowChunks words chunkSize overlap k0 idx m =
     map (\<lambda>k. \<lparr>content = join [SP] (windowAt words chunkSize overlap (k0 + k)),
                chunkIndex = idx + int k, pageNumber = 0\<rparr>) [0..<m]"

text \<open>
  The words of a string: its maximal runs of characters that are not white space. The
  words of a chunk list put together again: all words of the first chunk, and the words
  of every later chunk but its first \<open>overlap\<close> ones, which repeat the end of the chunk
  before.
\<close>

definition wordsOf :: "string \<Rightarrow> string list" where
  "wordsOf s = filter (\<lambda>w. w \<noteq> []) (split_ws s)"

fun reassemble :: "int \<Rightarrow> chunk list \<Rightarrow> string list" where
  "reassemble overlap [] = []"
| "reassemble overlap (c # cs) =
     wordsOf (content c) @ concat (map (\<lambda>c'. drop (nat overlap) (wordsOf (content c'))) cs)"

text \<open>The chunk data that a record of the ranker's result carries.\<close>

fun plainOf :: "ranked \<Rightarrow> stored_chunk" where
  "plainOf (Unscored c) = c"
| "plainOf (Scored s) =
     \<lparr>content = content s, chunkIndex = chunkIndex s, pageNumber = pageNumber s,
      chunk_id = chunk_id s\<rparr>"

text \<open>
  The order of the ranking: higher score first, then more matched words, then lower
  chunk index.
\<close>

definition rankedBefore :: "scored_chunk \<Rightarrow> scored_chunk \<Rightarrow> bool" where
  "rankedBefore a b =
     (score a > score b \<or>
      (score a = score b \<and>
       (matchedWords a > matchedWords b \<or>
        (matchedWords a = matchedWords b \<and> chunkIndex a \<le> chunkIndex b))))"

text \<open>
  The counts of the scoring, read off the engine: the matches of the whole-word
  pattern and of the bare token in the lowercased content.
\<close>

definition wholeWordMatches :: "regexp_engine \<Rightarrow> string \<Rightarrow> string \<Rightarrow> nat" where
  "wholeWordMatches rx c word = (case rx (wholeWordPattern word) c of Inl e \<Rightarrow> 0 | Inr n \<Rightarrow> n)"

definition substringMatches :: "regexp_engine \<Rightarrow> string \<Rightarrow> string \<Rightarrow> nat" where
  "substringMatches rx c word = (case rx word c of Inl e \<Rightarrow> 0 | Inr n \<Rightarrow> n)"

definition tokenScore :: "regexp_engine \<Rightarrow> string \<Rightarrow> string \<Rightarrow> real" where
  "tokenScore rx c word =
     real (wholeWordMatches rx c word) * 3 +
     max 0 (real (substringMatches rx c word) - real (wholeWordMatches rx c word)) * 1.5"

text \<open>The number of distinct query tokens that occur in the content.\<close>

definition distinctTokensFound :: "string \<Rightarrow> string list \<Rightarrow> nat" where
  "distinctTokensFound c queryWords = length (remdups (filter (includesStr c) queryWords))"

text \<open>
  The sum before normalization as the specification words it, with the bonus tied to
  the distinct tokens found.
\<close>

definition claimedRawScore :: "regexp_engine \<Rightarrow> string \<Rightarrow> string list \<Rightarrow> real" where
  "claimedRawScore rx c queryWords =
     sum_list (map (tokenScore rx c) queryWords) +
     (if 1 < distinctTokensFound c queryWords
      then real (distinctTokensFound c queryWords) * 2 else 0)"

text \<open>Two stored chunks for the evaluations.\<close>

definition cat0 :: stored_chunk where
  "cat0 = \<lparr>content = ''cat'', chunkIndex = 0, pageNumber = 0, chunk_id = None\<rparr>"

definition cat1 :: stored_chunk where
  "cat1 = \<lparr>content = ''Cat'', chunkIndex = 1, pageNumber = 0, chunk_id = None\<rparr>"

section \<open>Lemmas about strings\<close>

lemma all_dropWhile: "(\<forall>c\<in>set (dropWhile P xs). P c) \<longleftrightarrow> (\<forall>c\<in>set xs. P c)"
  by (induction xs) auto

lemma trim_eq_Nil: "trim s = [] \<longleftrightarrow> (\<forall>c\<in>set s. isSpace c)"
  by (simp add: trim_def dropWhile_eq_Nil_conv all_dropWhile)

lemma set_trim_subset: "set (trim s) \<subseteq> set s"
  by (auto simp: trim_def dest!: set_dropWhileD)

lemma trim_id:
  assumes "s \<noteq> []" "\<not> isSpace (hd s)" "\<not> isSpace (last s)"
  shows "trim s = s"
proof -
  have a: "dropWhile isSpace s = s"
    using assms by (cases s) auto
  have "dropWhile isSpace (rev s) = rev s"
    using assms by (cases "rev s") (auto simp: last_rev[symmetric] hd_rev)
  then show ?thesis
    by (simp add: trim_def a)
qed

lemma hd_trim: "trim s \<noteq> [] \<Longrightarrow> \<not> isSpace (hd (trim s))"
proof -
  assume ne: "trim s \<noteq> []"
  let ?a = "dropWhile isSpace s"
  let ?b = "dropWhile isSpace (rev ?a)"
  have b: "?b \<noteq> []" using ne by (simp add: trim_def)
  have a: "?a \<noteq> []"
  proof
    assume "?a = []"
    then have e: "?b = []" by (simp only: rev.simps dropWhile.simps)
    from b e show False by (rule notE)
  qed
  have ha: "\<not> isSpace (hd ?a)" using a by (rule hd_dropWhile)
  have "hd (trim s) = last ?b" by (simp add: trim_def hd_rev)
  also have "\<dots> = last (rev ?a)"
  proof -
    obtain xs where "rev ?a = takeWhile isSpace (rev ?a) @ ?b" by simp
    then show ?thesis using b by (metis last_appendR)
  qed
  also have "\<dots> = hd ?a" using a by (simp add: last_rev)
  finally show ?thesis using ha by simp
qed

lemma last_trim: "trim s \<noteq> [] \<Longrightarrow> \<not> isSpace (last (trim s))"
proof -
  assume ne: "trim s \<noteq> []"
  let ?b = "dropWhile isSpace (rev (dropWhile isSpace s))"
  have b: "?b \<noteq> []" using ne by (simp add: trim_def)
  have "last (trim s) = hd ?b" using b by (simp add: trim_def last_rev)
  then show ?thesis using hd_dropWhile[OF b] by simp
qed

lemma trim_idem: "trim (trim s) = trim s"
proof (cases "trim s = []")
  case True
  have "trim [] = []" by (simp add: trim_def)
  with True show ?thesis by simp
next
  case False
  then show ?thesis by (intro trim_id hd_trim last_trim)
qed

lemma trim_keeps: "c \<in> set s \<Longrightarrow> \<not> isSpace c \<Longrightarrow> c \<in> set (trim s)"
proof -
  assume c: "c \<in> set s" "\<not> isSpace c"
  have k: "\<And>xs. c \<in> set xs \<Longrightarrow> c \<in> set (dropWhile isSpace xs)"
  proof -
    fix xs assume "c \<in> set xs"
    then have "c \<in> set (takeWhile isSpace xs) \<or> c \<in> set (dropWhile isSpace xs)"
      by (metis Un_iff set_append takeWhile_dropWhile_id)
    then show "c \<in> set (dropWhile isSpace xs)"
      using c(2) by (auto dest: set_takeWhileD)
  qed
  show ?thesis using c(1) by (simp add: trim_def k)
qed

lemma splitRuns_not_Nil [simp]: "splitRuns sep s \<noteq> []"
  by (induction sep s rule: splitRuns.induct) (auto split: list.splits)

lemma splitRuns_all_sep_free: "\<forall>w\<in>set (splitRuns sep s). \<forall>c\<in>set w. \<not> sep c"
proof (induction sep s rule: splitRuns.induct)
  case (1 sep)
  show ?case by simp
next
  case (2 sep c cs)
  show ?case
  proof (cases "sep c")
    case True
    then show ?thesis using "2.IH"(1) by simp
  next
    case False
    obtain w ws where p: "splitRuns sep cs = w # ws"
      using splitRuns_not_Nil[of sep cs] by (cases "splitRuns sep cs") auto
    have "\<forall>v\<in>set (w # ws). \<forall>c\<in>set v. \<not> sep c"
      using "2.IH"(2)[OF False] p by simp
    then show ?thesis using False p by simp
  qed
qed

lemma splitRuns_sep_free:
  "w \<in> set (splitRuns sep s) \<Longrightarrow> c \<in> set w \<Longrightarrow> \<not> sep c"
  using splitRuns_all_sep_free by blast

lemma splitRuns_no_sep: "\<forall>c\<in>set s. \<not> sep c \<Longrightarrow> splitRuns sep s = [s]"
  by (induction s) auto

lemma hd_splitRuns: "hd (splitRuns sep s) = takeWhile (\<lambda>c. \<not> sep c) s"
  by (induction sep s rule: splitRuns.induct) (auto split: list.splits)

lemma tl_splitRuns_nonempty:
  "s \<noteq> [] \<Longrightarrow> \<not> sep (last s) \<Longrightarrow> [] \<notin> set (tl (splitRuns sep s))"
proof (induction sep s rule: splitRuns.induct)
  case (1 sep)
  then show ?case by simp
next
  case (2 sep c cs)
  show ?case
  proof (cases "sep c")
    case True
    let ?r = "dropWhile sep cs"
    from True "2.prems" have cs: "cs \<noteq> []" "\<not> sep (last cs)"
      by (auto split: if_splits)
    then have r: "?r \<noteq> []"
      by (auto simp: dropWhile_eq_Nil_conv)
    have lr: "last ?r = last cs"
      using r by (metis last_appendR takeWhile_dropWhile_id)
    have "[] \<notin> set (tl (splitRuns sep ?r))"
      using "2.IH"(1)[OF True r] lr cs by simp
    moreover have "hd (splitRuns sep ?r) \<noteq> []"
    proof -
      have "takeWhile (\<lambda>c. \<not> sep c) ?r \<noteq> []"
        using r hd_dropWhile[OF r] by (cases ?r) auto
      then show ?thesis unfolding hd_splitRuns .
    qed
    ultimately have "[] \<notin> set (splitRuns sep ?r)"
      using splitRuns_not_Nil[of sep ?r] by (cases "splitRuns sep ?r") auto
    then show ?thesis using True by simp
  next
    case False
    show ?thesis
    proof (cases "cs = []")
      case True
      then show ?thesis using False by simp
    next
      case ne: False
      then have "\<not> sep (last cs)" using "2.prems" by simp
      then have "[] \<notin> set (tl (splitRuns sep cs))"
        using "2.IH"(2)[OF False ne] by simp
      then show ?thesis using False by (auto split: list.splits)
    qed
  qed
qed

lemma splitRuns_pieces_nonempty:
  assumes "s \<noteq> []" "\<not> sep (hd s)" "\<not> sep (last s)"
  shows "[] \<notin> set (splitRuns sep s)"
proof -
  have "takeWhile (\<lambda>c. \<not> sep c) s \<noteq> []"
    using assms(1,2) by (cases s) auto
  then have "hd (splitRuns sep s) \<noteq> []"
    unfolding hd_splitRuns .
  moreover have "[] \<notin> set (tl (splitRuns sep s))"
    using assms by (intro tl_splitRuns_nonempty)
  ultimately show ?thesis
    using splitRuns_not_Nil[of sep s] by (cases "splitRuns sep s") auto
qed

lemma split_ws_trim_wordList:
  assumes "trim s \<noteq> []"
  shows "wordList (split_ws (trim s))"
proof -
  have a: "[] \<notin> set (splitRuns isSpace (trim s))"
    using assms hd_trim[OF assms] last_trim[OF assms] by (rule splitRuns_pieces_nonempty)
  show ?thesis
    unfolding wordList_def split_ws_def
  proof (intro ballI conjI)
    fix w assume "w \<in> set (splitRuns isSpace (trim s))"
    with a show "w \<noteq> []" by blast
  next
    fix w c assume "w \<in> set (splitRuns isSpace (trim s))" "c \<in> set w"
    then show "\<not> isSpace c" by (rule splitRuns_sep_free)
  qed
qed

lemma splitRuns_append_sep:
  "\<forall>c\<in>set w. \<not> sep c \<Longrightarrow> sep x \<Longrightarrow> r \<noteq> [] \<Longrightarrow> \<not> sep (hd r) \<Longrightarrow>
   splitRuns sep (w @ x # r) = w # splitRuns sep r"
proof (induction w)
  case Nil
  then have "dropWhile sep r = r" by (cases r) auto
  with Nil show ?case by simp
next
  case (Cons c w)
  then show ?case by simp
qed

lemma hd_join: "w \<noteq> [] \<Longrightarrow> hd (join sep (w # ws)) = hd w"
  by (cases ws) auto

lemma join_eq_Nil: "join sep ws = [] \<Longrightarrow> [] \<in> set ws \<or> ws = []"
  by (induction sep ws rule: join.induct) auto

lemma join_last_nonempty: "ws \<noteq> [] \<Longrightarrow> last ws \<noteq> [] \<Longrightarrow> join sep ws \<noteq> []"
  by (induction sep ws rule: join.induct) auto

lemma last_join: "ws \<noteq> [] \<Longrightarrow> last ws \<noteq> [] \<Longrightarrow> last (join sep ws) = last (last ws)"
proof (induction sep ws rule: join.induct)
  case (3 sep x y ys)
  then have "join sep (y # ys) \<noteq> []"
    using join_last_nonempty[of "y # ys" sep] by simp
  then show ?case using 3 by simp
qed auto

lemma split_ws_join:
  "ws \<noteq> [] \<Longrightarrow> wordList ws \<Longrightarrow> split_ws (join [SP] ws) = ws"
proof (induction "[SP]" ws rule: join.induct)
  case 1
  then show ?case by simp
next
  case (2 x)
  then show ?case by (simp add: split_ws_def wordList_def splitRuns_no_sep)
next
  case (3 x y ys)
  have sp: "isSpace SP" by (simp add: isSpace_def SP_def)
  have wl: "wordList (y # ys)" using "3.prems" by (simp add: wordList_def)
  have ne: "join [SP] (y # ys) \<noteq> []"
    using wl join_eq_Nil[of "[SP]" "y # ys"] by (auto simp: wordList_def)
  have hd: "\<not> isSpace (hd (join [SP] (y # ys)))"
    using wl by (cases y) (auto simp: hd_join wordList_def)
  have "splitRuns isSpace (x @ SP # join [SP] (y # ys)) = x # splitRuns isSpace (join [SP] (y # ys))"
    using "3.prems" sp ne hd by (intro splitRuns_append_sep) (auto simp: wordList_def)
  then show ?case using "3.hyps" wl by (simp add: split_ws_def)
qed

lemma trim_join:
  assumes "ws \<noteq> []" "wordList ws"
  shows "trim (join [SP] ws) = join [SP] ws"
proof (rule trim_id)
  show "join [SP] ws \<noteq> []"
    using assms join_eq_Nil[of "[SP]" ws] by (auto simp: wordList_def)
  show "\<not> isSpace (hd (join [SP] ws))"
    using assms by (cases ws) (auto simp: hd_join wordList_def)
  have "last ws \<in> set ws" using assms(1) by simp
  then have "last ws \<noteq> []" "\<not> isSpace (last (last ws))"
    using assms(2) by (auto simp: wordList_def)
  then show "\<not> isSpace (last (join [SP] ws))"
    using assms(1) by (simp add: last_join)
qed

lemma isSpace_SP [simp]: "isSpace SP"
  by (simp add: isSpace_def SP_def)

lemma isSpace_LF [simp]: "isSpace LF"
  by (simp add: isSpace_def LF_def)

lemma LF_neq_SP [simp]: "LF \<noteq> SP"
  by (simp add: LF_def SP_def)

lemma replace_ws_spaces: "c \<in> set (replace_ws s) \<Longrightarrow> isSpace c \<Longrightarrow> c = SP"
  by (induction s arbitrary: c rule: replace_ws.induct) (auto split: if_splits)

lemma replace_sp_nl_id: "LF \<notin> set s \<Longrightarrow> replace_sp_nl s = s"
  by (induction s rule: replace_sp_nl.induct) auto

lemma isSpace_CR [simp]: "isSpace CR"
  by (simp add: isSpace_def CR_def)

lemma replace_crlf_keeps: "c \<in> set s \<Longrightarrow> \<not> isSpace c \<Longrightarrow> c \<in> set (replace_crlf s)"
proof (induction s rule: replace_crlf.induct)
  case (1 a b cs)
  have ne: "c \<noteq> CR" "c \<noteq> LF" using "1.prems"(2) by auto
  show ?case
  proof (cases "a = CR \<and> b = LF")
    case True
    then have "c \<in> set cs" using "1.prems"(1) ne by auto
    then show ?thesis using True "1.IH"(1) "1.prems"(2) by simp
  next
    case False
    show ?thesis
    proof (cases "c = a")
      case True
      then show ?thesis using False by auto
    next
      case False2: False
      then have "c \<in> set (b # cs)" using "1.prems"(1) by simp
      then have "c \<in> set (replace_crlf (b # cs))" using False "1.IH"(2) "1.prems"(2) by blast
      then show ?thesis using False by auto
    qed
  qed
qed simp_all

lemma dropWhile_keeps: "c \<in> set s \<Longrightarrow> \<not> P c \<Longrightarrow> c \<in> set (dropWhile P s)"
  by (induction s) auto

lemma replace_ws_keeps: "c \<in> set s \<Longrightarrow> \<not> isSpace c \<Longrightarrow> c \<in> set (replace_ws s)"
  by (induction s rule: replace_ws.induct) (auto intro: dropWhile_keeps)

lemma LF_notin_cleanText: "LF \<notin> set (cleanText t)"
proof -
  have a: "LF \<notin> set (replace_ws (replace_crlf t))"
    using replace_ws_spaces[of LF "replace_crlf t"] by auto
  then have "replace_sp_nl (replace_ws (replace_crlf t)) = replace_ws (replace_crlf t)"
    by (rule replace_sp_nl_id)
  then show ?thesis
    using a set_trim_subset[of "replace_ws (replace_crlf t)"] by (auto simp: cleanText_def)
qed

lemma split_nl_cleanText: "split_nl (cleanText t) = [cleanText t]"
  using LF_notin_cleanText[of t] by (auto simp: split_nl_def intro!: splitRuns_no_sep)

lemma trim_cleanText: "trim (cleanText t) = cleanText t"
  by (simp add: cleanText_def trim_idem)

lemma cleanText_nonempty: "trim t \<noteq> [] \<Longrightarrow> cleanText t \<noteq> []"
proof -
  assume "trim t \<noteq> []"
  then obtain c where c: "c \<in> set t" "\<not> isSpace c"
    by (auto simp: trim_eq_Nil)
  then have "c \<in> set (replace_ws (replace_crlf t))"
    by (intro replace_ws_keeps replace_crlf_keeps)
  moreover have "replace_sp_nl (replace_ws (replace_crlf t)) = replace_ws (replace_crlf t)"
    using replace_ws_spaces[of LF "replace_crlf t"] by (intro replace_sp_nl_id) auto
  ultimately have "c \<in> set (cleanText t)"
    using c(2) by (simp add: cleanText_def trim_keeps)
  then show ?thesis by auto
qed

lemma paragraphsOf_single: "trim t \<noteq> [] \<Longrightarrow> paragraphsOf t = [cleanText t]"
  by (simp add: paragraphsOf_def split_nl_cleanText trim_cleanText cleanText_nonempty)

lemma cleanText_blank: "trim t = [] \<Longrightarrow> cleanText t = []"
proof -
  assume "trim t = []"
  then have a: "\<forall>c\<in>set t. isSpace c" by (simp add: trim_eq_Nil)
  have b: "\<And>s. \<forall>c\<in>set s. isSpace c \<Longrightarrow> \<forall>c\<in>set (replace_crlf s). isSpace c"
    subgoal for s by (induction s rule: replace_crlf.induct) auto
    done
  have c: "\<And>s. \<forall>c\<in>set (replace_ws s). isSpace c \<or> c \<in> set s"
    subgoal for s by (induction s rule: replace_ws.induct) (auto dest: set_dropWhileD)
    done
  have d: "\<And>s. set (replace_sp_nl s) \<subseteq> set s"
    subgoal for s by (induction s rule: replace_sp_nl.induct) auto
    done
  have "\<forall>c\<in>set (replace_sp_nl (replace_ws (replace_crlf t))). isSpace c"
    using a b[of t] c[of "replace_crlf t"] d[of "replace_ws (replace_crlf t)"] by blast
  then show ?thesis by (simp add: cleanText_def trim_eq_Nil)
qed

section \<open>Lemmas about the chunker\<close>

lemma jsSlice_window:
  assumes "0 \<le> i" "i < int (length xs)" "0 < s"
  shows "jsSlice xs i (i + s) = take (nat s) (drop (nat i) xs)"
proof -
  have "take (nat (min (i + s) (int (length xs)) - i)) (drop (nat i) xs) =
        take (nat s) (drop (nat i) xs)"
  proof (cases "i + s \<le> int (length xs)")
    case True
    then show ?thesis by (simp add: min_def)
  next
    case False
    then have "min (i + s) (int (length xs)) = int (length xs)" by simp
    moreover have "length (drop (nat i) xs) \<le> nat (int (length xs) - i)"
      using assms by simp
    moreover have "length (drop (nat i) xs) \<le> nat s"
      using assms False by simp
    ultimately show ?thesis by simp
  qed
  then show ?thesis
    using assms by (simp add: jsSlice_def Let_def min_def)
qed

lemma pushChunk_nonblank:
  "trim c \<noteq> [] \<Longrightarrow>
   pushChunk c st =
     st\<lparr>chunks := chunks st @ [\<lparr>content = trim c, chunkIndex = nextIndex st, pageNumber = 0\<rparr>],
        nextIndex := nextIndex st + 1\<rparr>"
  by (simp add: pushChunk_def Let_def)

lemma pushChunk_frame:
  "currentChunk (pushChunk c st) = currentChunk st"
  "currentWordCount (pushChunk c st) = currentWordCount st"
  by (simp_all add: pushChunk_def Let_def)

lemma denseState_pushChunk: "denseState st \<Longrightarrow> denseState (pushChunk c st)"
  by (simp add: pushChunk_def Let_def denseState_def denseIndexes_def)

lemma windowLoop_returns:
  assumes "overlap < chunkSize" and "P st" and "\<And>c s. P s \<Longrightarrow> P (pushChunk c s)"
  shows "\<exists>st'. windowLoop words chunkSize overlap i st = Some st' \<and> P st'"
  using assms(2)
proof (induction "nat (int (length words) - i)" arbitrary: i st rule: less_induct)
  case less
  let ?st = "pushChunk (join [SP] (jsSlice words i (i + chunkSize))) st"
  have p: "P ?st" using less.prems by (rule assms(3))
  show ?case
  proof (cases "i < int (length words) \<and> \<not> i + chunkSize \<ge> int (length words)")
    case True
    let ?i = "i + (chunkSize - overlap)"
    have "nat (int (length words) - ?i) < nat (int (length words) - i)"
      using True assms(1) by linarith
    then obtain st' where "windowLoop words chunkSize overlap ?i ?st = Some st'" "P st'"
      using less.hyps p by blast
    then show ?thesis
      using True by (subst windowLoop.simps) (simp add: Let_def)
  next
    case False
    then show ?thesis
      using p less.prems by (subst windowLoop.simps) (auto simp: Let_def)
  qed
qed

lemma denseState_frame [simp]:
  "denseState (st\<lparr>currentChunk := cc\<rparr>) = denseState st"
  "denseState (st\<lparr>currentWordCount := n\<rparr>) = denseState st"
  by (simp_all add: denseState_def)

lemma denseState_flush: "denseState st \<Longrightarrow> denseState (flushCurrent st)"
  by (simp add: flushCurrent_def denseState_pushChunk)

lemma paragraphStep_dense:
  assumes "overlap < chunkSize" "denseState st"
  shows "\<exists>st'. paragraphStep chunkSize overlap p st = Some st' \<and> denseState st'"
proof (cases "int (length (split_ws (trim p))) > chunkSize")
  case True
  let ?st = "if currentChunk st \<noteq> []
             then (flushCurrent st)\<lparr>currentChunk := [], currentWordCount := 0\<rparr> else st"
  have "denseState ?st"
    using assms(2) by (simp add: denseState_flush)
  then have "\<exists>st'. windowLoop (split_ws (trim p)) chunkSize overlap 0 ?st = Some st' \<and> denseState st'"
    using assms(1) denseState_pushChunk by (intro windowLoop_returns)
  then show ?thesis
    using True by (simp add: paragraphStep_def Let_def)
next
  case False
  then show ?thesis
    using assms(2) by (simp add: paragraphStep_def Let_def denseState_flush)
qed

lemma paragraphLoop_dense:
  assumes "overlap < chunkSize"
  shows "denseState st \<Longrightarrow>
         \<exists>st'. paragraphLoop chunkSize overlap ps st = Some st' \<and> denseState st'"
proof (induction ps arbitrary: st)
  case Nil
  then show ?case by simp
next
  case (Cons p ps)
  obtain st1 where s: "paragraphStep chunkSize overlap p st = Some st1" "denseState st1"
    using paragraphStep_dense[OF assms Cons.prems] by blast
  then show ?case using Cons.IH[of st1] by simp
qed

lemma denseState_init: "denseState initChunker"
  by (simp add: denseState_def initChunker_def denseIndexes_def)

lemma chunkText_dense:
  assumes "overlap < chunkSize"
  shows "\<exists>cs. chunkText t chunkSize overlap = Some cs \<and> denseIndexes cs"
proof (cases "t = [] \<or> trim t = []")
  case True
  then show ?thesis by (auto simp: chunkText_def denseIndexes_def)
next
  case False
  obtain st where s: "paragraphLoop chunkSize overlap (paragraphsOf t) initChunker = Some st"
      "denseState st"
    using paragraphLoop_dense[OF assms denseState_init] by blast
  have "denseState (if currentChunk st \<noteq> [] then flushCurrent st else st)"
    using s(2) by (simp add: denseState_flush)
  then have "denseIndexes (chunks (if currentChunk st \<noteq> [] then flushCurrent st else st))"
    unfolding denseState_def by blast
  then show ?thesis
    using False s(1) by (simp add: chunkText_def)
qed

lemma wordList_sub: "wordList ws \<Longrightarrow> set vs \<subseteq> set ws \<Longrightarrow> wordList vs"
  by (auto simp: wordList_def)

lemma wordList_windowAt: "wordList ws \<Longrightarrow> wordList (windowAt ws s ov k)"
  by (rule wordList_sub[where ws = ws])
     (auto simp: windowAt_def dest!: in_set_takeD in_set_dropD)

lemma map_upt_Suc_shift: "map f [0..<Suc m] = f 0 # map (\<lambda>k. f (Suc k)) [0..<m]"
  by (simp add: map_upt_Suc del: upt_Suc)

lemma windowLoop_step_last:
  assumes "0 \<le> i" "i < int (length words)" "0 < chunkSize" "int (length words) \<le> i + chunkSize"
  shows "windowLoop words chunkSize overlap i st =
         Some (pushChunk (join [SP] (take (nat chunkSize) (drop (nat i) words))) st)"
  using assms by (subst windowLoop.simps) (simp add: Let_def jsSlice_window)

lemma windowLoop_step_more:
  assumes "0 \<le> i" "i < int (length words)" "0 < chunkSize" "i + chunkSize < int (length words)"
  shows "windowLoop words chunkSize overlap i st =
         windowLoop words chunkSize overlap (i + (chunkSize - overlap))
           (pushChunk (join [SP] (take (nat chunkSize) (drop (nat i) words))) st)"
  using assms by (subst windowLoop.simps) (simp add: Let_def jsSlice_window)

lemma pushChunk_window:
  assumes "wordList ws" "k * nat (s - ov) < length ws" "0 < s"
  shows "pushChunk (join [SP] (windowAt ws s ov k)) st =
         st\<lparr>chunks := chunks st @
               [\<lparr>content = join [SP] (windowAt ws s ov k), chunkIndex = nextIndex st,
                 pageNumber = 0\<rparr>],
            nextIndex := nextIndex st + 1\<rparr>"
proof -
  have ne: "windowAt ws s ov k \<noteq> []"
    using assms(2,3) by (simp add: windowAt_def)
  have wl: "wordList (windowAt ws s ov k)"
    using assms(1) by (rule wordList_windowAt)
  have t: "trim (join [SP] (windowAt ws s ov k)) = join [SP] (windowAt ws s ov k)"
    using ne wl by (rule trim_join)
  have "join [SP] (windowAt ws s ov k) \<noteq> []"
    using ne wl join_eq_Nil[of "[SP]" "windowAt ws s ov k"] by (auto simp: wordList_def)
  then show ?thesis
    using pushChunk_nonblank[of "join [SP] (windowAt ws s ov k)" st] t by simp
qed

lemma windowChunks_Suc:
  "windowChunks ws s ov k0 idx (Suc m) =
     \<lparr>content = join [SP] (windowAt ws s ov k0), chunkIndex = idx, pageNumber = 0\<rparr> #
     windowChunks ws s ov (Suc k0) (idx + 1) m"
  unfolding windowChunks_def map_upt_Suc_shift by (simp add: add.assoc)

lemma windowLoop_windows:
  assumes ov: "0 \<le> overlap" "overlap < chunkSize" and wl: "wordList words"
  defines "d \<equiv> nat (chunkSize - overlap)"
  shows "k0 * d < length words \<Longrightarrow>
     \<exists>m>0. windowLoop words chunkSize overlap (int (k0 * d)) st =
            Some (st\<lparr>chunks := chunks st @ windowChunks words chunkSize overlap k0 (nextIndex st) m,
                     nextIndex := nextIndex st + int m\<rparr>)
          \<and> (\<forall>k. Suc k < m \<longrightarrow> int ((k0 + k) * d) + chunkSize < int (length words))
          \<and> int (length words) \<le> int ((k0 + m - 1) * d) + chunkSize
          \<and> (k0 + m - 1) * d < length words"
proof (induction "length words - k0 * d" arbitrary: k0 st rule: less_induct)
  case less
  let ?i = "int (k0 * d)"
  let ?st = "pushChunk (join [SP] (windowAt words chunkSize overlap k0)) st"
  have dpos: "0 < d" "int d = chunkSize - overlap" "int d \<le> chunkSize"
    using ov by (simp_all add: d_def)
  have s: "0 < chunkSize" using ov by simp
  have w: "take (nat chunkSize) (drop (nat ?i) words) = windowAt words chunkSize overlap k0"
    unfolding windowAt_def d_def[symmetric] nat_int ..
  have push: "?st = st\<lparr>chunks := chunks st @
               [\<lparr>content = join [SP] (windowAt words chunkSize overlap k0),
                 chunkIndex = nextIndex st, pageNumber = 0\<rparr>],
               nextIndex := nextIndex st + 1\<rparr>"
    using wl less.prems s unfolding d_def by (rule pushChunk_window)
  have i0: "0 \<le> ?i"
    by simp
  have il: "?i < int (length words)"
    using less.prems by (simp only: of_nat_less_iff)
  show ?case
  proof (cases "int (length words) \<le> ?i + chunkSize")
    case True
    have "windowLoop words chunkSize overlap ?i st = Some ?st"
      using windowLoop_step_last[OF i0 il s True, of overlap st] unfolding w .
    then have "windowLoop words chunkSize overlap ?i st =
            Some (st\<lparr>chunks := chunks st @ windowChunks words chunkSize overlap k0 (nextIndex st) 1,
                     nextIndex := nextIndex st + int 1\<rparr>)"
      using push by (simp add: windowChunks_def)
    then show ?thesis
      using True less.prems by (intro exI[of _ 1]) simp
  next
    case False
    have step: "windowLoop words chunkSize overlap ?i st =
                windowLoop words chunkSize overlap (int (Suc k0 * d)) ?st"
    proof -
      have e: "?i + (chunkSize - overlap) = int (Suc k0 * d)"
        using dpos(2) by (simp add: algebra_simps)
      have m: "?i + chunkSize < int (length words)"
        using False by linarith
      show ?thesis
        using windowLoop_step_more[OF i0 il s m, of overlap st] unfolding w e .
    qed
    have lt: "Suc k0 * d < length words"
    proof -
      have "int (Suc k0 * d) = ?i + int d" by (simp add: algebra_simps)
      then have "int (Suc k0 * d) < int (length words)" using False dpos(3) by linarith
      then show ?thesis by (simp only: of_nat_less_iff)
    qed
    have dec: "length words - Suc k0 * d < length words - k0 * d"
      using lt dpos(1) by simp
    obtain m where m: "0 < m"
        "windowLoop words chunkSize overlap (int (Suc k0 * d)) ?st =
            Some (?st\<lparr>chunks := chunks ?st @ windowChunks words chunkSize overlap (Suc k0) (nextIndex ?st) m,
                     nextIndex := nextIndex ?st + int m\<rparr>)"
        "\<forall>k. Suc k < m \<longrightarrow> int ((Suc k0 + k) * d) + chunkSize < int (length words)"
        "int (length words) \<le> int ((Suc k0 + m - 1) * d) + chunkSize"
        "(Suc k0 + m - 1) * d < length words"
      using less.hyps[OF dec lt, of ?st] by blast
    have res: "?st\<lparr>chunks := chunks ?st @ windowChunks words chunkSize overlap (Suc k0) (nextIndex ?st) m,
                     nextIndex := nextIndex ?st + int m\<rparr> =
          st\<lparr>chunks := chunks st @ windowChunks words chunkSize overlap k0 (nextIndex st) (Suc m),
                     nextIndex := nextIndex st + int (Suc m)\<rparr>"
      unfolding push by (simp add: windowChunks_Suc)
    have all: "\<forall>k. Suc k < Suc m \<longrightarrow> int ((k0 + k) * d) + chunkSize < int (length words)"
    proof (intro allI impI)
      fix k assume k: "Suc k < Suc m"
      show "int ((k0 + k) * d) + chunkSize < int (length words)"
      proof (cases k)
        case 0
        then show ?thesis using False by simp
      next
        case (Suc j)
        then have "Suc j < m" using k by simp
        then show ?thesis using m(3) Suc by simp
      qed
    qed
    have "windowLoop words chunkSize overlap ?i st =
            Some (st\<lparr>chunks := chunks st @ windowChunks words chunkSize overlap k0 (nextIndex st) (Suc m),
                     nextIndex := nextIndex st + int (Suc m)\<rparr>)"
      using step m(2) res by simp
    moreover have "int (length words) \<le> int ((k0 + Suc m - 1) * d) + chunkSize"
      using m(4) m(1) by simp
    moreover have "(k0 + Suc m - 1) * d < length words"
      using m(5) m(1) by simp
    ultimately show ?thesis
      using all by (intro exI[of _ "Suc m"]) blast
  qed
qed


lemma windowAt_nonempty: "k * nat (s - ov) < length ws \<Longrightarrow> 0 < s \<Longrightarrow> windowAt ws s ov k \<noteq> []"
  by (simp add: windowAt_def)





lemma filter_wordList: "wordList ws \<Longrightarrow> filter (\<lambda>w. w \<noteq> []) ws = ws"
  by (induction ws) (auto simp: wordList_def)

lemma wordsOf_join: "ws \<noteq> [] \<Longrightarrow> wordList ws \<Longrightarrow> wordsOf (join [SP] ws) = ws"
  by (simp add: wordsOf_def split_ws_join filter_wordList)

lemma wordsOf_trimmed: "trim s \<noteq> [] \<Longrightarrow> wordsOf (trim s) = split_ws (trim s)"
  by (simp add: wordsOf_def filter_wordList split_ws_trim_wordList)

lemma concat_windows:
  assumes "0 \<le> ov" "ov < s"
  shows "windowAt ws s ov 0 @ concat (map (\<lambda>k. drop (nat ov) (windowAt ws s ov (Suc k))) [0..<j]) =
         take (j * nat (s - ov) + nat s) ws"
proof (induction j)
  case 0
  show ?case by (simp add: windowAt_def)
next
  case (Suc j)
  define d where "d = nat (s - ov)"
  have a: "nat s - nat ov = d" using assms unfolding d_def by linarith
  have b: "nat ov + Suc j * d = j * d + nat s" using assms unfolding d_def by (simp add: algebra_simps)
  let ?f = "\<lambda>k. drop (nat ov) (windowAt ws s ov (Suc k))"
  have x: "?f j = take d (drop (j * d + nat s) ws)"
    unfolding windowAt_def drop_take drop_drop a d_def[symmetric] b ..
  have y: "take (j * d + nat s) ws @ take d (drop (j * d + nat s) ws) =
           take (Suc j * d + nat s) ws"
    by (simp add: take_add[symmetric] algebra_simps)
  have "windowAt ws s ov 0 @ concat (map ?f [0..<Suc j]) =
        (windowAt ws s ov 0 @ concat (map ?f [0..<j])) @ ?f j"
    by simp
  also have "\<dots> = take (j * d + nat s) ws @ take d (drop (j * d + nat s) ws)"
    unfolding Suc x d_def ..
  also have "\<dots> = take (Suc j * d + nat s) ws"
    by (rule y)
  finally show ?case unfolding d_def .
qed

lemma reassemble_windowChunks:
  assumes "0 \<le> ov" "ov < s" "wordList ws" "0 < m"
    and "(m - 1) * nat (s - ov) < length ws"
    and "int (length ws) \<le> int ((m - 1) * nat (s - ov)) + s"
  shows "reassemble ov (windowChunks ws s ov 0 idx m) = ws"
proof -
  define d where "d = nat (s - ov)"
  obtain j where j: "m = Suc j" using assms(4) by (cases m) auto
  have sp: "0 < s" using assms(1,2) by simp
  have ne: "\<And>k. k \<le> j \<Longrightarrow> windowAt ws s ov k \<noteq> []"
  proof -
    fix k assume "k \<le> j"
    then have "k * d \<le> j * d" by (rule mult_le_mono1)
    also have "\<dots> < length ws" using assms(5) j unfolding d_def by simp
    finally show "windowAt ws s ov k \<noteq> []"
      using sp unfolding d_def by (intro windowAt_nonempty)
  qed
  have w: "\<And>k. k \<le> j \<Longrightarrow> wordsOf (join [SP] (windowAt ws s ov k)) = windowAt ws s ov k"
    using ne wordList_windowAt[OF assms(3)] by (intro wordsOf_join)
  have "map (\<lambda>c'. drop (nat ov) (wordsOf (content c'))) (windowChunks ws s ov (Suc 0) (idx + 1) j) =
        map (\<lambda>k. drop (nat ov) (windowAt ws s ov (Suc k))) [0..<j]"
    unfolding windowChunks_def by (simp add: w)
  then have "reassemble ov (windowChunks ws s ov 0 idx m) =
        windowAt ws s ov 0 @ concat (map (\<lambda>k. drop (nat ov) (windowAt ws s ov (Suc k))) [0..<j])"
    unfolding j windowChunks_Suc by (simp add: w)
  also have "\<dots> = take (j * d + nat s) ws"
    unfolding d_def using assms(1,2) by (rule concat_windows)
  also have "\<dots> = ws"
  proof -
    have "int (length ws) \<le> int (j * d) + s" using assms(6) j unfolding d_def by simp
    then have "length ws \<le> j * d + nat s" by linarith
    then show ?thesis by (rule take_all)
  qed
  finally show ?thesis .
qed

lemma wordsOf_Nil: "wordsOf [] = []"
  by (simp add: wordsOf_def split_ws_def)

lemma currentChunk_init: "currentChunk initChunker = []"
  by (simp add: initChunker_def)

lemma chunkText_nonblank:
  assumes "trim t \<noteq> []"
  shows "chunkText t chunkSize overlap =
     (case paragraphStep chunkSize overlap (cleanText t) initChunker of
        None \<Rightarrow> None
      | Some st \<Rightarrow> Some (chunks (if currentChunk st \<noteq> [] then flushCurrent st else st)))"
proof -
  have "t \<noteq> []" using assms by (auto simp: trim_def)
  then show ?thesis
    using assms by (simp add: chunkText_def paragraphsOf_single split: option.splits)
qed

lemma chunkText_small:
  assumes "trim t \<noteq> []" "int (length (split_ws (cleanText t))) \<le> chunkSize"
  shows "chunkText t chunkSize overlap =
         Some [\<lparr>content = cleanText t, chunkIndex = 0, pageNumber = 0\<rparr>]"
proof -
  have ne: "cleanText t \<noteq> []" using assms(1) by (rule cleanText_nonempty)
  have "paragraphStep chunkSize overlap (cleanText t) initChunker =
        Some (initChunker\<lparr>currentChunk := [cleanText t],
                currentWordCount := int (length (split_ws (cleanText t)))\<rparr>)"
    using assms(2) by (simp add: paragraphStep_def trim_cleanText initChunker_def)
  then show ?thesis
    using ne by (simp add: chunkText_nonblank[OF assms(1)] flushCurrent_def pushChunk_def
        trim_cleanText initChunker_def Let_def)
qed

lemma chunkText_large:
  assumes "0 \<le> overlap" "overlap < chunkSize" "trim t \<noteq> []"
    and "chunkSize < int (length (split_ws (cleanText t)))"
  shows "\<exists>m>0. chunkText t chunkSize overlap =
           Some (windowChunks (split_ws (cleanText t)) chunkSize overlap 0 0 m)
         \<and> (m - 1) * nat (chunkSize - overlap) < length (split_ws (cleanText t))
         \<and> int (length (split_ws (cleanText t))) \<le>
             int ((m - 1) * nat (chunkSize - overlap)) + chunkSize"
proof -
  let ?ws = "split_ws (cleanText t)"
  have ne: "cleanText t \<noteq> []" using assms(3) by (rule cleanText_nonempty)
  have wl: "wordList ?ws"
    using split_ws_trim_wordList[of "cleanText t"] ne by (simp add: trim_cleanText)
  have len: "0 * nat (chunkSize - overlap) < length ?ws"
    using assms(1,2,4) by auto
  obtain m where m: "0 < m"
      "windowLoop ?ws chunkSize overlap (int (0 * nat (chunkSize - overlap))) initChunker =
         Some (initChunker\<lparr>chunks := chunks initChunker @
                  windowChunks ?ws chunkSize overlap 0 (nextIndex initChunker) m,
                nextIndex := nextIndex initChunker + int m\<rparr>)"
      "int (length ?ws) \<le> int ((0 + m - 1) * nat (chunkSize - overlap)) + chunkSize"
      "(0 + m - 1) * nat (chunkSize - overlap) < length ?ws"
    using windowLoop_windows[OF assms(1,2) wl len, of initChunker] by blast
  have "paragraphStep chunkSize overlap (cleanText t) initChunker =
        windowLoop ?ws chunkSize overlap (int (0 * nat (chunkSize - overlap))) initChunker"
    using assms(4) by (simp add: paragraphStep_def trim_cleanText currentChunk_init)
  then have "chunkText t chunkSize overlap = Some (windowChunks ?ws chunkSize overlap 0 0 m)"
    unfolding chunkText_nonblank[OF assms(3)] m(2) by (simp add: initChunker_def)
  then show ?thesis
    using m(1,3,4) by (intro exI[of _ m]) simp
qed




section \<open>The normalization keeps the words\<close>

lemma splitRuns_dropWhile:
  "splitRuns sep (dropWhile sep xs) =
     (if xs = [] then [[]]
      else if hd (splitRuns sep xs) = [] then tl (splitRuns sep xs)
      else splitRuns sep xs)"
proof (cases xs)
  case Nil
  then show ?thesis by simp
next
  case (Cons c cs)
  show ?thesis
  proof (cases "sep c")
    case True
    then show ?thesis using Cons by simp
  next
    case False
    then have "hd (splitRuns sep xs) \<noteq> []"
      unfolding hd_splitRuns using Cons by simp
    then show ?thesis using Cons False by simp
  qed
qed

lemma replace_crlf_Nil: "replace_crlf s = [] \<longleftrightarrow> s = []"
  by (induction s rule: replace_crlf.induct) auto

lemma replace_ws_Nil: "replace_ws s = [] \<longleftrightarrow> s = []"
  by (cases s) auto

lemma splitRuns_dropWhile_cong:
  assumes "splitRuns sep xs = splitRuns sep ys" "xs = [] \<longleftrightarrow> ys = []"
  shows "splitRuns sep (dropWhile sep xs) = splitRuns sep (dropWhile sep ys)"
  unfolding splitRuns_dropWhile using assms by simp

lemma splitRuns_replace_crlf: "splitRuns isSpace (replace_crlf s) = splitRuns isSpace s"
proof (induction s rule: replace_crlf.induct)
  case (1 c d cs)
  show ?case
  proof (cases "c = CR \<and> d = LF")
    case True
    have "splitRuns isSpace (dropWhile isSpace (replace_crlf cs)) =
          splitRuns isSpace (dropWhile isSpace cs)"
      using "1.IH"(1)[OF True] by (intro splitRuns_dropWhile_cong) (simp_all add: replace_crlf_Nil)
    then show ?thesis using True by simp
  next
    case False
    note ih = "1.IH"(2)[OF False]
    have rc: "replace_crlf (c # d # cs) = c # replace_crlf (d # cs)"
      using False by auto
    show ?thesis
    proof (cases "isSpace c")
      case True
      have e: "splitRuns isSpace (dropWhile isSpace (replace_crlf (d # cs))) =
            splitRuns isSpace (dropWhile isSpace (d # cs))"
        using ih by (intro splitRuns_dropWhile_cong) (simp_all add: replace_crlf_Nil)
      have "splitRuns isSpace (c # replace_crlf (d # cs)) =
            [] # splitRuns isSpace (dropWhile isSpace (replace_crlf (d # cs)))"
        using True by simp
      also have "\<dots> = [] # splitRuns isSpace (dropWhile isSpace (d # cs))"
        by (simp only: e)
      also have "\<dots> = splitRuns isSpace (c # d # cs)"
        using True by (simp del: dropWhile.simps)
      finally show ?thesis unfolding rc .
    next
      case nsp: False
      have "splitRuns isSpace (c # replace_crlf (d # cs)) = splitRuns isSpace (c # d # cs)"
        using nsp ih by (simp del: replace_crlf.simps)
      then show ?thesis unfolding rc .
    qed
  qed
qed simp_all

lemma splitRuns_replace_ws: "splitRuns isSpace (replace_ws s) = splitRuns isSpace s"
proof (induction s rule: replace_ws.induct)
  case 1
  show ?case by simp
next
  case (2 c cs)
  show ?case
  proof (cases "isSpace c")
    case True
    let ?r = "dropWhile isSpace cs"
    have "splitRuns isSpace (dropWhile isSpace (replace_ws ?r)) =
          splitRuns isSpace (dropWhile isSpace ?r)"
      using "2.IH"(1)[OF True] by (intro splitRuns_dropWhile_cong) (simp_all add: replace_ws_Nil)
    moreover have "dropWhile isSpace ?r = ?r"
      by (simp add: dropWhile_idem)
    ultimately show ?thesis using True by simp
  next
    case False
    then show ?thesis using "2.IH"(2)[OF False] by simp
  qed
qed

lemma splitRuns_all_sep: "\<forall>c\<in>set s. sep c \<Longrightarrow> filter (\<lambda>w. w \<noteq> []) (splitRuns sep s) = []"
proof (cases s)
  case Nil
  then show ?thesis by simp
next
  case (Cons c cs)
  assume a: "\<forall>c\<in>set s. sep c"
  then have d: "dropWhile sep cs = []" using Cons by simp
  have "splitRuns sep s = [] # splitRuns sep (dropWhile sep cs)"
    using a Cons by simp
  then have "splitRuns sep s = [[], []]"
    unfolding d by simp
  then show ?thesis by simp
qed

lemma wordsOf_append_spaces:
  "\<forall>c\<in>set sps. sep c \<Longrightarrow>
   filter (\<lambda>w. w \<noteq> []) (splitRuns sep (s @ sps)) = filter (\<lambda>w. w \<noteq> []) (splitRuns sep s)"
proof (induction sep s arbitrary: sps rule: splitRuns.induct)
  case (1 sep)
  then show ?case by (simp add: splitRuns_all_sep del: splitRuns.simps(2))
next
  case (2 sep c cs)
  show ?case
  proof (cases "sep c")
    case True
    have "\<exists>sps'. (\<forall>c\<in>set sps'. sep c) \<and> dropWhile sep (cs @ sps) = dropWhile sep cs @ sps'"
    proof (cases "\<forall>x\<in>set cs. sep x")
      case True
      then have d: "dropWhile sep (cs @ sps) = []" "dropWhile sep cs = []"
        using "2.prems" by simp_all
      show ?thesis unfolding d by (intro exI[of _ "[]"]) simp
    next
      case False
      then obtain x where "x \<in> set cs" "\<not> sep x" by blast
      then have "dropWhile sep (cs @ sps) = dropWhile sep cs @ sps"
        by (rule dropWhile_append1)
      then show ?thesis using "2.prems" by blast
    qed
    then obtain sps' where s: "\<forall>c\<in>set sps'. sep c"
        "dropWhile sep (cs @ sps) = dropWhile sep cs @ sps'"
      by blast
    have "filter (\<lambda>w. w \<noteq> []) (splitRuns sep (dropWhile sep cs @ sps')) =
          filter (\<lambda>w. w \<noteq> []) (splitRuns sep (dropWhile sep cs))"
      using "2.IH"(1)[OF True s(1)] .
    then show ?thesis using True s(2) by simp
  next
    case False
    obtain w ws where p: "splitRuns sep (cs @ sps) = w # ws"
      using splitRuns_not_Nil[of sep "cs @ sps"] by (cases "splitRuns sep (cs @ sps)") auto
    obtain w' ws' where p': "splitRuns sep cs = w' # ws'"
      using splitRuns_not_Nil[of sep cs] by (cases "splitRuns sep cs") auto
    have "takeWhile (\<lambda>c. \<not> sep c) (cs @ sps) = takeWhile (\<lambda>c. \<not> sep c) cs"
    proof (cases "\<forall>x\<in>set cs. \<not> sep x")
      case True
      have t1: "takeWhile (\<lambda>c. \<not> sep c) sps = []"
        using "2.prems" by (cases sps) auto
      have t2: "takeWhile (\<lambda>c. \<not> sep c) cs = cs"
        using True by (intro takeWhile_eq_all_conv[THEN iffD2]) simp
      have "takeWhile (\<lambda>c. \<not> sep c) (cs @ sps) = cs @ takeWhile (\<lambda>c. \<not> sep c) sps"
        using True by (intro takeWhile_append2) simp
      also have "\<dots> = cs"
        unfolding t1 by simp
      also have "\<dots> = takeWhile (\<lambda>c. \<not> sep c) cs"
        using t2 by (rule sym)
      finally show ?thesis .
    next
      case False
      then obtain x where "x \<in> set cs" "\<not> \<not> sep x" by blast
      then show ?thesis by (rule takeWhile_append1)
    qed
    then have hd: "w = w'"
      using hd_splitRuns[of sep "cs @ sps"] hd_splitRuns[of sep cs] p p' by simp
    have "filter (\<lambda>w. w \<noteq> []) (w # ws) = filter (\<lambda>w. w \<noteq> []) (w' # ws')"
      using "2.IH"(2)[OF False "2.prems"] p p' by simp
    then have "filter (\<lambda>w. w \<noteq> []) ws = filter (\<lambda>w. w \<noteq> []) ws'"
      using hd by (cases "w = []") simp_all
    then show ?thesis using False p p' hd by simp
  qed
qed

lemma wordsOf_dropWhile:
  "filter (\<lambda>w. w \<noteq> []) (splitRuns sep (dropWhile sep s)) =
   filter (\<lambda>w. w \<noteq> []) (splitRuns sep s)"
proof (cases s)
  case Nil
  then show ?thesis by simp
next
  case (Cons c cs)
  then show ?thesis by simp
qed

lemma wordsOf_trim: "wordsOf (trim s) = wordsOf s"
proof -
  let ?a = "dropWhile isSpace s"
  have "?a = rev (dropWhile isSpace (rev ?a)) @ rev (takeWhile isSpace (rev ?a))"
    by (metis rev_append rev_rev_ident takeWhile_dropWhile_id)
  then have a: "?a = trim s @ rev (takeWhile isSpace (rev ?a))"
    by (simp add: trim_def)
  have "\<forall>c\<in>set (rev (takeWhile isSpace (rev ?a))). isSpace c"
    by (auto dest: set_takeWhileD)
  then have "filter (\<lambda>w. w \<noteq> []) (splitRuns isSpace (trim s @ rev (takeWhile isSpace (rev ?a)))) =
        filter (\<lambda>w. w \<noteq> []) (splitRuns isSpace (trim s))"
    by (rule wordsOf_append_spaces)
  then have "filter (\<lambda>w. w \<noteq> []) (splitRuns isSpace ?a) =
        filter (\<lambda>w. w \<noteq> []) (splitRuns isSpace (trim s))"
    using a by simp
  then show ?thesis
    by (simp add: wordsOf_def split_ws_def wordsOf_dropWhile)
qed

lemma wordsOf_cleanText: "wordsOf (cleanText t) = wordsOf t"
proof -
  have "replace_sp_nl (replace_ws (replace_crlf t)) = replace_ws (replace_crlf t)"
    using replace_ws_spaces[of LF "replace_crlf t"] by (intro replace_sp_nl_id) auto
  then have "wordsOf (cleanText t) = wordsOf (replace_ws (replace_crlf t))"
    by (simp add: cleanText_def wordsOf_trim)
  then show ?thesis
    by (simp add: wordsOf_def split_ws_def splitRuns_replace_ws splitRuns_replace_crlf)
qed

section \<open>Lemmas about the ranker\<close>

lemma jsSlice_from_zero: "\<exists>k. jsSlice xs 0 m = take k xs"
  by (simp add: jsSlice_def Let_def) blast

lemma jsSlice_take: "0 \<le> m \<Longrightarrow> jsSlice xs 0 m = take (nat m) xs"
  by (simp add: jsSlice_def Let_def min_def)

lemma stored_chunk_copy:
  "\<lparr>content = content (c::stored_chunk), chunkIndex = chunkIndex c, pageNumber = pageNumber c,
    chunk_id = chunk_id c\<rparr> = c"
  by simp

lemma scoreChunk_plain:
  "scoreChunk rx qw len c i = Inr sc \<Longrightarrow> plainOf (Scored sc) = c"
  by (auto simp: scoreChunk_def Let_def split: sum.splits)

lemma mapScore_plain:
  "mapScore rx qw len cs i = Inr scs \<Longrightarrow> map (\<lambda>s. plainOf (Scored s)) scs = cs"
proof (induction cs arbitrary: i scs)
  case Nil
  then show ?case by simp
next
  case (Cons c cs)
  then obtain sc rest where r: "scoreChunk rx qw len c i = Inr sc"
      "mapScore rx qw len cs (Suc i) = Inr rest" "scs = sc # rest"
    by (auto split: sum.splits)
  then show ?case
    using Cons.IH[OF r(2)] scoreChunk_plain[OF r(1)] by simp
qed

lemma mset_insertBy: "mset (insertBy cmp x ys) = add_mset x (mset ys)"
  by (induction ys) auto

lemma mset_sortBy: "mset (sortBy cmp xs) = mset xs"
  unfolding sortBy_def by (induction xs) (auto simp: mset_insertBy)

lemma mset_take_subset: "mset (take k xs) \<subseteq># mset xs"
  by (metis append_take_drop_id mset_append mset_subset_eq_add_left)

lemma compareScored_le: "compareScored a b \<le> 0 \<longleftrightarrow> rankedBefore a b"
  by (auto simp: compareScored_def rankedBefore_def)

lemma rankedBefore_total: "rankedBefore a b \<or> rankedBefore b a"
  by (auto simp: rankedBefore_def)

lemma rankedBefore_trans: "rankedBefore a b \<Longrightarrow> rankedBefore b c \<Longrightarrow> rankedBefore a c"
  unfolding rankedBefore_def by (elim disjE conjE) auto

lemma set_insertBy: "set (insertBy cmp x ys) = insert x (set ys)"
  by (induction ys) auto

lemma sorted_insertBy:
  "sorted_wrt rankedBefore ys \<Longrightarrow> sorted_wrt rankedBefore (insertBy compareScored x ys)"
proof (induction ys)
  case Nil
  then show ?case by simp
next
  case (Cons y ys)
  show ?case
  proof (cases "compareScored x y \<le> 0")
    case True
    then have xy: "rankedBefore x y" by (simp add: compareScored_le)
    have "\<forall>z\<in>set ys. rankedBefore x z"
      using Cons.prems xy rankedBefore_trans by auto
    then show ?thesis using True xy Cons.prems by simp
  next
    case False
    then have "rankedBefore y x"
      using rankedBefore_total[of x y] by (simp add: compareScored_le)
    then show ?thesis
      using False Cons by (simp add: set_insertBy)
  qed
qed

lemma sorted_sortBy: "sorted_wrt rankedBefore (sortBy compareScored xs)"
  unfolding sortBy_def by (induction xs) (simp_all add: sorted_insertBy)

lemma sorted_wrt_take: "sorted_wrt P xs \<Longrightarrow> sorted_wrt P (take k xs)"
  by (metis append_take_drop_id sorted_wrt_append)

lemma set_sortBy: "set (sortBy cmp xs) = set xs"
  by (metis mset_sortBy set_mset_mset)

lemma eval_queryWords_cat: "queryWordsOf ''cat'' = [''cat'']"
  by code_simp

lemma eval_queryWords_cat_cat: "queryWordsOf ''cat cat'' = [''cat'', ''cat'']"
  by code_simp

lemma eval_lower_cat: "toLowerCase ''cat'' = ''cat''" "toLowerCase ''Cat'' = ''cat''"
  by code_simp+

lemma eval_split_cat: "split_ws ''cat'' = [''cat'']"
  by code_simp

lemma eval_includes_cat: "includesStr ''cat'' ''cat''"
  by code_simp

lemma eval_scoreWords_cat: "scoreWords fragmentRegExp ''cat'' [''cat''] 0 = Inr 3"
  by code_simp

lemma eval_scoreWords_cat_cat: "scoreWords fragmentRegExp ''cat'' [''cat'', ''cat''] 0 = Inr 6"
  by code_simp

lemma eval_tokenScore_cat: "tokenScore fragmentRegExp ''cat'' ''cat'' = 3"
  by code_simp

lemma eval_scoreChunk_cat0:
  "scoreChunk fragmentRegExp [''cat''] (Suc (Suc 0)) cat0 0 =
     Inr \<lparr>content = ''cat'', chunkIndex = 0, pageNumber = 0, chunk_id = None,
          score = 3, rawScore = 3, matchedWords = 1\<rparr>"
  by (simp add: scoreChunk_def cat0_def eval_lower_cat eval_split_cat eval_includes_cat
      eval_scoreWords_cat Let_def del: scoreWords.simps includesStr.simps)

lemma eval_scoreChunk_cat1:
  "scoreChunk fragmentRegExp [''cat''] (Suc (Suc 0)) cat1 (Suc 0) =
     Inr \<lparr>content = ''Cat'', chunkIndex = 1, pageNumber = 0, chunk_id = None,
          score = 57 / 20, rawScore = 3, matchedWords = 1\<rparr>"
  by (simp add: scoreChunk_def cat1_def eval_lower_cat eval_split_cat eval_includes_cat
      eval_scoreWords_cat Let_def del: scoreWords.simps includesStr.simps)

lemma eval_scoreChunk_cat_cat:
  "scoreChunk fragmentRegExp [''cat'', ''cat''] (Suc 0) cat0 0 =
     Inr \<lparr>content = ''cat'', chunkIndex = 0, pageNumber = 0, chunk_id = None,
          score = 10, rawScore = 10, matchedWords = 2\<rparr>"
  by (simp add: scoreChunk_def cat0_def eval_lower_cat eval_split_cat eval_includes_cat
      eval_scoreWords_cat_cat Let_def del: scoreWords.simps includesStr.simps)

lemma eval_two_cats:
  "findRelevantChunks fragmentRegExp [cat0, cat1] ''cat'' m =
     Inr (map Scored (jsSlice
       [\<lparr>content = ''cat'', chunkIndex = 0, pageNumber = 0, chunk_id = None,
          score = 3, rawScore = 3, matchedWords = 1\<rparr>,
        \<lparr>content = ''Cat'', chunkIndex = 1, pageNumber = 0, chunk_id = None,
          score = 57 / 20, rawScore = 3, matchedWords = 1\<rparr>] 0 m))"
  by (simp add: findRelevantChunks_def eval_queryWords_cat eval_scoreChunk_cat0
      eval_scoreChunk_cat1 sortBy_def compareScored_def Let_def)

lemma eval_cat_cat:
  "findRelevantChunks fragmentRegExp [cat0] ''cat cat'' 3 =
     Inr [Scored \<lparr>content = ''cat'', chunkIndex = 0, pageNumber = 0, chunk_id = None,
                  score = 10, rawScore = 10, matchedWords = 2\<rparr>]"
  by (simp add: findRelevantChunks_def eval_queryWords_cat_cat eval_scoreChunk_cat_cat
      sortBy_def jsSlice_def Let_def)

lemma eval_claimed_cat_cat: "claimedRawScore fragmentRegExp ''cat'' [''cat'', ''cat''] = 6"
  by (simp add: claimedRawScore_def distinctTokensFound_def eval_includes_cat
      eval_tokenScore_cat del: includesStr.simps)

lemma eval_slice_two: "jsSlice [a, b] 0 1 = [a]" "jsSlice [a, b] 0 3 = [a, b]"
  by (simp_all add: jsSlice_def)

section \<open>Evaluations of the chunker and of the ranker\<close>

text \<open>
  C1. The normalization of \<open>chunkText\<close> is claimed to keep paragraph breaks as
  separators, so that two paragraphs whose words do not fit in one chunk give two
  chunks, the second starting with the overlap. The source replaces every run of white
  space by one space before it looks for line breaks, and a line break is white space:
  on the text of two paragraphs of four words each, with \<open>chunkSize = 3\<close> and
  \<open>overlap = 1\<close>, the chunker sees one paragraph of eight words and slides the window
  over it, which gives four chunks, the second of them running across the paragraph
  break.
\<close>

theorem chunkText_two_paragraphs_example:
  "chunkText (''Para one text here.'' @ [LF, LF] @ ''Para two text here.'') 3 1 =
     Some [\<lparr>content = ''Para one text'', chunkIndex = 0, pageNumber = 0\<rparr>,
           \<lparr>content = ''text here. Para'', chunkIndex = 1, pageNumber = 0\<rparr>,
           \<lparr>content = ''Para two text'', chunkIndex = 2, pageNumber = 0\<rparr>,
           \<lparr>content = ''text here.'', chunkIndex = 3, pageNumber = 0\<rparr>]"
  by code_simp

text \<open>
  C5. The ranker is claimed to return on every query and to match query tokens as
  literal text. The source puts each token into a regular expression as it is. For the
  query \<open>c++\<close> the pattern is \<^verbatim>\<open>\bc++\b\<close>, whose second \<open>+\<close> has nothing to repeat: the
  constructor throws and the call ends with a \<open>SyntaxError\<close>, whatever the engine does
  outside the modelled fragment.
\<close>

theorem findRelevantChunks_syntax_error:
  "findRelevantChunks (ecmaRegExp rest)
     [\<lparr>content = ''learn c++ today'', chunkIndex = 0, pageNumber = 0, chunk_id = None\<rparr>]
     ''c++'' 3 = Inl SyntaxError"
proof -
  have qw: "queryWordsOf ''c++'' = [''c++'']"
    by code_simp
  have pp: "parsePattern (wholeWordPattern ''c++'') NoAtom False [] = Invalid"
    by code_simp
  show ?thesis
    by (simp add: findRelevantChunks_def qw scoreChunk_def ecmaRegExp_def pp)
qed

section \<open>Termination and indexes of the chunker\<close>

text \<open>
  C9. For every text, and all parameters with \<open>0 \<le> overlap < chunkSize\<close>, \<open>chunkText\<close>
  terminates: the window loop moves its index forward by the positive stride
  \<open>chunkSize - overlap\<close> and leaves once a window reaches the end of the words, so the
  whole call returns a list of chunks.
\<close>

theorem chunkText_terminates:
  assumes "0 \<le> overlap" "overlap < chunkSize"
  shows "\<exists>cs. chunkText t chunkSize overlap = Some cs"
  using chunkText_dense[OF assms(2)] by blast

theorem chunkText_terminates_witness:
  "(0::int) \<le> 1 \<and> (1::int) < 2 \<and> (\<exists>cs. chunkText ''one two three four five'' 2 1 = Some cs)"
  using chunkText_terminates[of 1 2 "''one two three four five''"] by simp

text \<open>
  C7. For every text, and all parameters with \<open>chunkSize > overlap \<ge> 0\<close>, the
  \<open>chunkIndex\<close> values of the chunks that \<open>chunkText\<close> returns are \<open>0, 1, ..., n - 1\<close> in
  the order of emission: the counter moves only when a chunk is pushed, so a dropped
  empty chunk leaves no gap.
\<close>

theorem chunkText_chunkIndex_dense:
  assumes "0 \<le> overlap" "overlap < chunkSize"
  shows "\<exists>cs. chunkText t chunkSize overlap = Some cs \<and>
              map chunkIndex cs = map int [0..<length cs]"
  using chunkText_dense[OF assms(2)] unfolding denseIndexes_def by blast

theorem chunkText_chunkIndex_dense_witness:
  "(0::int) \<le> 1 \<and> (1::int) < 2 \<and>
   (\<exists>cs. chunkText ''one two three four five'' 2 1 = Some cs \<and>
         map chunkIndex cs = map int [0..<length cs])"
  using chunkText_chunkIndex_dense[of 1 2 "''one two three four five''"] by simp

section \<open>Windows over an oversized paragraph\<close>



section \<open>The chunks give the words of the text back\<close>

text \<open>
  C8. For every text, and all parameters with \<open>chunkSize > overlap \<ge> 0\<close>, the chunks
  that \<open>chunkText\<close> returns give back the words of the normalized text: the words of
  the first chunk, followed by the words of each later chunk without the \<open>overlap\<close>
  words it shares with the chunk before, are the words of the cleaned text in their
  order, none lost and none twice. The words of the cleaned text are the words of the
  text itself.
\<close>

theorem chunkText_reconstructs:
  assumes "0 \<le> overlap" "overlap < chunkSize"
  shows "\<exists>cs. chunkText t chunkSize overlap = Some cs \<and>
              reassemble overlap cs = wordsOf (cleanText t) \<and>
              wordsOf (cleanText t) = wordsOf t"
proof -
  have main: "\<exists>cs. chunkText t chunkSize overlap = Some cs \<and>
                    reassemble overlap cs = wordsOf (cleanText t)"
  proof (cases "trim t = []")
    case True
    then have "chunkText t chunkSize overlap = Some []"
      by (simp add: chunkText_def)
    then show ?thesis
      using True by (simp add: cleanText_blank wordsOf_Nil)
  next
    case False
    let ?ws = "split_ws (cleanText t)"
    have ne: "cleanText t \<noteq> []" using False by (rule cleanText_nonempty)
    have wl: "wordList ?ws"
      using split_ws_trim_wordList[of "cleanText t"] ne by (simp add: trim_cleanText)
    have wo: "wordsOf (cleanText t) = ?ws"
      using wl by (simp add: wordsOf_def filter_wordList)
    show ?thesis
    proof (cases "chunkSize < int (length ?ws)")
      case True
      obtain m where m: "0 < m"
          "chunkText t chunkSize overlap = Some (windowChunks ?ws chunkSize overlap 0 0 m)"
          "(m - 1) * nat (chunkSize - overlap) < length ?ws"
          "int (length ?ws) \<le> int ((m - 1) * nat (chunkSize - overlap)) + chunkSize"
        using chunkText_large[OF assms False True] by blast
      have "reassemble overlap (windowChunks ?ws chunkSize overlap 0 0 m) = ?ws"
        using assms wl m(1,3,4) by (rule reassemble_windowChunks)
      then show ?thesis using m(2) wo by simp
    next
      case small: False
      then have "chunkText t chunkSize overlap =
           Some [\<lparr>content = cleanText t, chunkIndex = 0, pageNumber = 0\<rparr>]"
        using False by (intro chunkText_small) simp_all
      then show ?thesis by simp
    qed
  qed
  have "wordsOf (cleanText t) = wordsOf t"
    by (rule wordsOf_cleanText)
  with main show ?thesis by blast
qed

theorem chunkText_reconstructs_witness:
  "(0::int) \<le> 1 \<and> (1::int) < 3 \<and>
   (\<exists>cs. chunkText ''one two  three four five six'' 3 1 = Some cs \<and>
         reassemble 1 cs = [''one'', ''two'', ''three'', ''four'', ''five'', ''six''])"
proof -
  have w: "wordsOf (cleanText ''one two  three four five six'') =
        [''one'', ''two'', ''three'', ''four'', ''five'', ''six'']"
    by code_simp
  have "\<exists>cs. chunkText ''one two  three four five six'' 3 1 = Some cs \<and>
          reassemble 1 cs = wordsOf (cleanText ''one two  three four five six'') \<and>
          wordsOf (cleanText ''one two  three four five six'') =
          wordsOf ''one two  three four five six''"
    by (rule chunkText_reconstructs) simp_all
  then obtain cs where cs: "chunkText ''one two  three four five six'' 3 1 = Some cs"
      "reassemble 1 cs = wordsOf (cleanText ''one two  three four five six'')"
    by (elim exE conjE) (rule that; assumption)
  have "reassemble 1 cs = [''one'', ''two'', ''three'', ''four'', ''five'', ''six'']"
    using cs(2) unfolding w .
  then have "\<exists>cs. chunkText ''one two  three four five six'' 3 1 = Some cs \<and>
         reassemble 1 cs = [''one'', ''two'', ''three'', ''four'', ''five'', ''six'']"
    using cs(1) by (intro exI[of _ cs] conjI)
  then show ?thesis by simp
qed

section \<open>The ranker leaves the chunk data alone\<close>

text \<open>
  C10. Whenever \<open>findRelevantChunks\<close> returns, on the scored path as on the pass-through
  path, every record of the result carries the \<open>content\<close>, \<open>chunkIndex\<close>, \<open>pageNumber\<close>
  and \<open>id\<close> of an input chunk, and no input chunk is used twice: the chunk data of the
  result is a part of the input. The ranker adds nothing but the annotations \<open>score\<close>,
  \<open>rawScore\<close> and \<open>matchedWords\<close>. The function is a pure one in the model, as the source
  only reads its arguments: \<^verbatim>\<open>map\<close>, \<^verbatim>\<open>filter\<close> and \<^verbatim>\<open>slice\<close> build new arrays, and
  \<^verbatim>\<open>sort\<close> works in place on the array that \<^verbatim>\<open>filter\<close> has just built.
\<close>

theorem findRelevantChunks_frame:
  assumes "findRelevantChunks rx inputChunks query maxChunks = Inr res"
  shows "mset (map plainOf res) \<subseteq># mset inputChunks"
proof (cases "inputChunks = [] \<or> query = []")
  case True
  then show ?thesis using assms by (auto simp: findRelevantChunks_def)
next
  case False
  show ?thesis
  proof (cases "queryWordsOf query = []")
    case True
    obtain k where k: "jsSlice inputChunks 0 maxChunks = take k inputChunks"
      using jsSlice_from_zero by blast
    have "res = map Unscored (take k inputChunks)"
      using assms False True k by (auto simp: findRelevantChunks_def)
    then have "map plainOf res = take k inputChunks"
      by (simp add: comp_def)
    then show ?thesis by (simp add: mset_take_subset)
  next
    case qw: False
    obtain scs where scs: "mapScore rx (queryWordsOf query) (length inputChunks) inputChunks 0 = Inr scs"
        "res = map Scored (jsSlice (sortBy compareScored (filter (\<lambda>c. score c > 0) scs)) 0 maxChunks)"
      using assms False qw by (auto simp: findRelevantChunks_def Let_def split: sum.splits)
    let ?p = "\<lambda>s. plainOf (Scored s)"
    let ?sorted = "sortBy compareScored (filter (\<lambda>c. score c > 0) scs)"
    obtain k where k: "jsSlice ?sorted 0 maxChunks = take k ?sorted"
      using jsSlice_from_zero by blast
    have "mset (map plainOf res) = image_mset ?p (mset (take k ?sorted))"
      using scs(2) k by (simp add: comp_def)
    also have "\<dots> \<subseteq># image_mset ?p (mset ?sorted)"
      by (intro image_mset_subseteq_mono mset_take_subset)
    also have "\<dots> = image_mset ?p (filter_mset (\<lambda>c. score c > 0) (mset scs))"
      by (simp add: mset_sortBy)
    also have "\<dots> \<subseteq># image_mset ?p (mset scs)"
      by (intro image_mset_subseteq_mono multiset_filter_subset)
    also have "\<dots> = mset inputChunks"
      using mapScore_plain[OF scs(1)] by (metis mset_map)
    finally show ?thesis .
  qed
qed

theorem findRelevantChunks_frame_witness:
  "findRelevantChunks fragmentRegExp [cat0, cat1] ''cat'' 3 =
     Inr [Scored \<lparr>content = ''cat'', chunkIndex = 0, pageNumber = 0, chunk_id = None,
                  score = 3, rawScore = 3, matchedWords = 1\<rparr>,
          Scored \<lparr>content = ''Cat'', chunkIndex = 1, pageNumber = 0, chunk_id = None,
                  score = 57 / 20, rawScore = 3, matchedWords = 1\<rparr>] \<and>
   mset (map plainOf
     [Scored \<lparr>content = ''cat'', chunkIndex = 0, pageNumber = 0, chunk_id = None,
              score = 3, rawScore = 3, matchedWords = 1\<rparr>,
      Scored \<lparr>content = ''Cat'', chunkIndex = 1, pageNumber = 0, chunk_id = None,
              score = 57 / 20, rawScore = 3, matchedWords = 1\<rparr>]) \<subseteq># mset [cat0, cat1]"
proof -
  have h: "findRelevantChunks fragmentRegExp [cat0, cat1] ''cat'' 3 =
     Inr [Scored \<lparr>content = ''cat'', chunkIndex = 0, pageNumber = 0, chunk_id = None,
                  score = 3, rawScore = 3, matchedWords = 1\<rparr>,
          Scored \<lparr>content = ''Cat'', chunkIndex = 1, pageNumber = 0, chunk_id = None,
                  score = 57 / 20, rawScore = 3, matchedWords = 1\<rparr>]"
    by (simp add: eval_two_cats eval_slice_two)
  show ?thesis
    using findRelevantChunks_frame[OF h] h by blast
qed

section \<open>Filtering, order and truncation\<close>

text \<open>
  C3. \<open>maxChunks\<close> is the maximum number of chunks to return, so \<open>maxChunks \<ge> 0\<close>. When a
  query token survives the tokenization, the outcome of \<open>findRelevantChunks\<close> is this:
  every input chunk is scored, and an error thrown while scoring is the outcome of the
  call; otherwise the chunks of score \<open>\<le> 0\<close> are dropped, the others are put in the
  order of the ranking (a permutation of them that is sorted by descending score, then
  by higher \<open>matchedWords\<close>, then by ascending \<open>chunkIndex\<close>), and the first \<open>maxChunks\<close>
  records of that list are the result. Hence the result is never longer than
  \<open>maxChunks\<close> and holds no chunk whose score is not positive. The sort puts every
  list of scored chunks in this order, whatever their scores are, so that the order
  does not depend on how the arithmetic of the scoring rounds.
\<close>

theorem findRelevantChunks_ranking:
  fixes xs :: "scored_chunk list"
  assumes "queryWordsOf query \<noteq> []"
    and "0 \<le> maxChunks"
  shows "(case findRelevantChunks rx inputChunks query maxChunks of
      Inl e \<Rightarrow> mapScore rx (queryWordsOf query) (length inputChunks) inputChunks 0 = Inl e
    | Inr res \<Rightarrow>
       (\<exists>scs kept.
          mapScore rx (queryWordsOf query) (length inputChunks) inputChunks 0 = Inr scs
        \<and> mset kept = mset (filter (\<lambda>c. 0 < score c) scs)
        \<and> sorted_wrt rankedBefore kept
        \<and> res = map Scored (take (nat maxChunks) kept)
        \<and> int (length res) \<le> maxChunks
        \<and> (\<forall>r\<in>set res. \<exists>c. r = Scored c \<and> 0 < score c)))
    \<and> mset (sortBy compareScored xs) = mset xs
    \<and> sorted_wrt rankedBefore (sortBy compareScored xs)"
proof -
  have main: "case findRelevantChunks rx inputChunks query maxChunks of
      Inl e \<Rightarrow> mapScore rx (queryWordsOf query) (length inputChunks) inputChunks 0 = Inl e
    | Inr res \<Rightarrow>
       (\<exists>scs kept.
          mapScore rx (queryWordsOf query) (length inputChunks) inputChunks 0 = Inr scs
        \<and> mset kept = mset (filter (\<lambda>c. 0 < score c) scs)
        \<and> sorted_wrt rankedBefore kept
        \<and> res = map Scored (take (nat maxChunks) kept)
        \<and> int (length res) \<le> maxChunks
        \<and> (\<forall>r\<in>set res. \<exists>c. r = Scored c \<and> 0 < score c))"
  proof (cases "findRelevantChunks rx inputChunks query maxChunks")
  case (Inl e)
  have q: "query \<noteq> []"
    using assms(1) by (auto simp: queryWordsOf_def toLowerCase_def split_ws_def)
  have n: "inputChunks \<noteq> []"
    using Inl by (auto simp: findRelevantChunks_def)
  have "mapScore rx (queryWordsOf query) (length inputChunks) inputChunks 0 = Inl e"
    using Inl assms(1) q n by (auto simp: findRelevantChunks_def Let_def split: sum.splits)
  then show ?thesis
    unfolding Inl by simp
next
  case (Inr res)
  have q: "query \<noteq> []"
    using assms(1) by (auto simp: queryWordsOf_def toLowerCase_def split_ws_def)
  obtain scs where scs:
      "mapScore rx (queryWordsOf query) (length inputChunks) inputChunks 0 = Inr scs"
      "res = map Scored (jsSlice (sortBy compareScored (filter (\<lambda>c. score c > 0) scs)) 0 maxChunks)"
  proof (cases "inputChunks = []")
    case True
    then have "res = []" using Inr by (simp add: findRelevantChunks_def)
    then show ?thesis using True that[of "[]"] by (simp add: jsSlice_def sortBy_def)
  next
    case False
    then show ?thesis
      using Inr assms(1) q that by (auto simp: findRelevantChunks_def Let_def split: sum.splits)
  qed
  let ?kept = "sortBy compareScored (filter (\<lambda>c. score c > 0) scs)"
  have k: "jsSlice ?kept 0 maxChunks = take (nat maxChunks) ?kept"
    using assms(2) by (rule jsSlice_take)
  have a: "mset ?kept = mset (filter (\<lambda>c. 0 < score c) scs)"
    by (rule mset_sortBy)
  have b: "sorted_wrt rankedBefore ?kept"
    by (rule sorted_sortBy)
  have c: "res = map Scored (take (nat maxChunks) ?kept)"
    using scs(2) unfolding k .
  have l: "int (length res) \<le> maxChunks"
    using assms(2) unfolding c by simp
  have d: "\<forall>r\<in>set res. \<exists>c. r = Scored c \<and> 0 < score c"
  proof
    fix r assume "r \<in> set res"
    then obtain x where x: "r = Scored x" "x \<in> set (take (nat maxChunks) ?kept)"
      unfolding c by auto
    then have "x \<in> set ?kept" by (auto dest: in_set_takeD)
    then have "0 < score x" by (simp add: set_sortBy)
    then show "\<exists>c. r = Scored c \<and> 0 < score c" using x(1) by blast
  qed
  have "\<exists>scs kept.
          mapScore rx (queryWordsOf query) (length inputChunks) inputChunks 0 = Inr scs
        \<and> mset kept = mset (filter (\<lambda>c. 0 < score c) scs)
        \<and> sorted_wrt rankedBefore kept
        \<and> res = map Scored (take (nat maxChunks) kept)
        \<and> int (length res) \<le> maxChunks
        \<and> (\<forall>r\<in>set res. \<exists>c. r = Scored c \<and> 0 < score c)"
    by (intro exI[of _ scs] exI[of _ ?kept] conjI) (rule scs(1) a b c l d)+
  then show ?thesis
    unfolding Inr by simp
  qed
  have perm: "mset (sortBy compareScored xs) = mset xs"
    by (rule mset_sortBy)
  have ord: "sorted_wrt rankedBefore (sortBy compareScored xs)"
    by (rule sorted_sortBy)
  show ?thesis
    by (intro conjI) (rule main perm ord)+
qed

theorem findRelevantChunks_ranking_witness:
  "queryWordsOf ''cat'' \<noteq> [] \<and> (0::int) \<le> 1 \<and>
   findRelevantChunks fragmentRegExp [cat0, cat1] ''cat'' 1 =
     Inr [Scored \<lparr>content = ''cat'', chunkIndex = 0, pageNumber = 0, chunk_id = None,
                  score = 3, rawScore = 3, matchedWords = 1\<rparr>] \<and>
   (\<exists>scs kept.
      mapScore fragmentRegExp (queryWordsOf ''cat'') (length [cat0, cat1]) [cat0, cat1] 0 = Inr scs
    \<and> mset kept = mset (filter (\<lambda>c. 0 < score c) scs)
    \<and> sorted_wrt rankedBefore kept
    \<and> [Scored \<lparr>content = ''cat'', chunkIndex = 0, pageNumber = 0, chunk_id = None,
                  score = 3, rawScore = 3, matchedWords = 1\<rparr>] =
        map Scored (take (nat 1) kept))"
proof -
  have h1: "findRelevantChunks fragmentRegExp [cat0, cat1] ''cat'' 1 =
     Inr [Scored \<lparr>content = ''cat'', chunkIndex = 0, pageNumber = 0, chunk_id = None,
                  score = 3, rawScore = 3, matchedWords = 1\<rparr>]"
    by (simp add: eval_two_cats eval_slice_two)
  have h2: "queryWordsOf ''cat'' \<noteq> []"
    by (simp add: eval_queryWords_cat)
  have h3: "(0::int) \<le> 1"
    by simp
  have "case findRelevantChunks fragmentRegExp [cat0, cat1] ''cat'' 1 of
      Inl e \<Rightarrow>
        mapScore fragmentRegExp (queryWordsOf ''cat'') (length [cat0, cat1]) [cat0, cat1] 0 = Inl e
    | Inr res \<Rightarrow>
       (\<exists>scs kept.
          mapScore fragmentRegExp (queryWordsOf ''cat'') (length [cat0, cat1]) [cat0, cat1] 0 =
            Inr scs
        \<and> mset kept = mset (filter (\<lambda>c. 0 < score c) scs)
        \<and> sorted_wrt rankedBefore kept
        \<and> res = map Scored (take (nat 1) kept)
        \<and> int (length res) \<le> 1
        \<and> (\<forall>r\<in>set res. \<exists>c. r = Scored c \<and> 0 < score c))"
    by (rule findRelevantChunks_ranking[OF h2 h3, THEN conjunct1])
  then have "\<exists>scs kept.
          mapScore fragmentRegExp (queryWordsOf ''cat'') (length [cat0, cat1]) [cat0, cat1] 0 =
            Inr scs
        \<and> mset kept = mset (filter (\<lambda>c. 0 < score c) scs)
        \<and> sorted_wrt rankedBefore kept
        \<and> [Scored \<lparr>content = ''cat'', chunkIndex = 0, pageNumber = 0, chunk_id = None,
                  score = 3, rawScore = 3, matchedWords = 1\<rparr>] =
            map Scored (take (nat 1) kept)"
    unfolding h1 sum.case by - (elim exE conjE, intro exI conjI, assumption+)
  then show ?thesis
    using h1 h2 h3 by (intro conjI)
qed

section \<open>Stop words and the pass-through\<close>

text \<open>
  C6. The tokens of a query are the pieces of the lowercased query between runs of
  white space, without those of length \<open>\<le> 2\<close> and those in the list of 20 stop words.
  For a query that is not empty (the empty query returns the empty list before any
  tokenization) and \<open>maxChunks \<ge> 0\<close>: if no token survives, the function returns the
  first \<open>min maxChunks (length chunks)\<close> input chunks in their order, without scores,
  whatever the regular expression engine is; and if a token survives, the function
  does not pass the chunks through but scores them against exactly these tokens.
\<close>

theorem findRelevantChunks_pass_through:
  fixes query :: string and maxChunks :: int
  assumes "query \<noteq> []" and "0 \<le> maxChunks"
  defines "tokens \<equiv>
    filter (\<lambda>w. 2 < length w \<and> w \<notin> set stopWords) (split_ws (toLowerCase query))"
  shows "(tokens = [] \<longrightarrow>
            findRelevantChunks rx inputChunks query maxChunks =
              Inr (map Unscored (take (min (nat maxChunks) (length inputChunks)) inputChunks)))
       \<and> (tokens \<noteq> [] \<longrightarrow>
            findRelevantChunks rx inputChunks query maxChunks =
              (case mapScore rx tokens (length inputChunks) inputChunks 0 of
                 Inl e \<Rightarrow> Inl e
               | Inr scs \<Rightarrow>
                   Inr (map Scored (take (nat maxChunks)
                     (sortBy compareScored (filter (\<lambda>c. 0 < score c) scs))))))
       \<and> findRelevantChunks rx inputChunks [] maxChunks = Inr []
       \<and> length stopWords = 20 \<and> distinct stopWords"
proof -
  have qw: "queryWordsOf query = tokens"
    by (simp add: queryWordsOf_def tokens_def)
  have t: "take (min (nat maxChunks) (length inputChunks)) inputChunks =
        take (nat maxChunks) inputChunks"
    by (simp add: min_def)
  have a: "tokens = [] \<longrightarrow>
            findRelevantChunks rx inputChunks query maxChunks =
              Inr (map Unscored (take (min (nat maxChunks) (length inputChunks)) inputChunks))"
  proof
    assume e: "tokens = []"
    show "findRelevantChunks rx inputChunks query maxChunks =
              Inr (map Unscored (take (min (nat maxChunks) (length inputChunks)) inputChunks))"
    proof (cases "inputChunks = []")
      case True
      then show ?thesis by (simp add: findRelevantChunks_def)
    next
      case False
      then show ?thesis
        using assms(1,2) qw e t by (simp add: findRelevantChunks_def jsSlice_take)
    qed
  qed
  have b: "tokens \<noteq> [] \<longrightarrow>
            findRelevantChunks rx inputChunks query maxChunks =
              (case mapScore rx tokens (length inputChunks) inputChunks 0 of
                 Inl e \<Rightarrow> Inl e
               | Inr scs \<Rightarrow>
                   Inr (map Scored (take (nat maxChunks)
                     (sortBy compareScored (filter (\<lambda>c. 0 < score c) scs)))))"
    using assms(1,2) qw
    by (cases "inputChunks = []")
       (auto simp: findRelevantChunks_def Let_def jsSlice_take sortBy_def split: sum.splits)
  have c: "length stopWords = 20" "distinct stopWords"
    by (simp_all add: stopWords_def)
  have g: "findRelevantChunks rx inputChunks [] maxChunks = Inr []"
    by (simp add: findRelevantChunks_def)
  show ?thesis
    by (intro conjI) (rule a b g c)+
qed

theorem findRelevantChunks_pass_through_witness:
  "''the and of'' \<noteq> [] \<and> (0::int) \<le> 1 \<and>
   filter (\<lambda>w. 2 < length w \<and> w \<notin> set stopWords) (split_ws (toLowerCase ''the and of'')) = [] \<and>
   findRelevantChunks fragmentRegExp [cat0, cat1] ''the and of'' 1 = Inr [Unscored cat0]"
proof -
  have h: "filter (\<lambda>w. 2 < length w \<and> w \<notin> set stopWords)
             (split_ws (toLowerCase ''the and of'')) = []"
    by code_simp
  have h1: "''the and of'' \<noteq> []"
    by simp
  have h2: "(0::int) \<le> 1"
    by simp
  have "findRelevantChunks fragmentRegExp [cat0, cat1] ''the and of'' 1 =
          Inr (map Unscored (take (min (nat 1) (length [cat0, cat1])) [cat0, cat1]))"
    by (rule findRelevantChunks_pass_through[OF h1 h2, THEN conjunct1, THEN mp, OF h])
  then have "findRelevantChunks fragmentRegExp [cat0, cat1] ''the and of'' 1 = Inr [Unscored cat0]"
    by simp
  then show ?thesis
    using h h1 by simp
qed

section \<open>The bonus for several query tokens\<close>

text \<open>
  C2. The score adds \<open>matchedWords * 2\<close> if more than one distinct query token occurs
  in the chunk, \<open>matchedWords\<close> being the number of distinct tokens found. The source
  names its count \<^verbatim>\<open>uniqueWordsFound\<close>, but it filters the list of query tokens without
  removing repetitions: for the query \<open>cat cat\<close> and the chunk \<open>cat\<close> exactly one
  distinct token occurs in the chunk, so that no bonus is due and the sum is \<open>6\<close>, and
  the function reports \<open>matchedWords = 2\<close>, the raw score \<open>10\<close> and the score \<open>10\<close>.
\<close>

theorem findRelevantChunks_repeated_token:
  "findRelevantChunks fragmentRegExp [cat0] ''cat cat'' 3 =
     Inr [Scored \<lparr>content = ''cat'', chunkIndex = 0, pageNumber = 0, chunk_id = None,
                  score = 10, rawScore = 10, matchedWords = 2\<rparr>] \<and>
   distinctTokensFound (toLowerCase (content cat0)) (queryWordsOf ''cat cat'') = 1 \<and>
   claimedRawScore fragmentRegExp (toLowerCase (content cat0)) (queryWordsOf ''cat cat'') = 6"
proof -
  have c: "toLowerCase (content cat0) = ''cat''"
    by (simp add: cat0_def eval_lower_cat)
  have d: "distinctTokensFound ''cat'' [''cat'', ''cat''] = 1"
    by (simp add: distinctTokensFound_def eval_includes_cat del: includesStr.simps)
  show ?thesis
    by (simp add: eval_cat_cat c d eval_queryWords_cat_cat eval_claimed_cat_cat)
qed

end
